theory Spec2Isabelle
  imports
    Complex_Main
    "HOL-Library.Word"
    "HOL-Library.Log_Nat"
    "HOL-Library.Char_ord"
    "HOL-Library.List_Lexorder"
    "HOL-Library.Product_Lexorder"
begin

section \<open>Numeric model\<close>

text \<open>
  The evaluator works on three kinds of numbers.

  \<^item> Box coordinates.  \<open>read_detections_file\<close> casts the four coordinates of each line with
    \<open>astype(int)\<close>, numpy's default integer, and \<open>to_numpy()\<close> hands them to \<open>compute_iou\<close>
    unchanged: they are 64-bit two's-complement integers, whose array arithmetic wraps
    around silently.  They are modelled as \<open>64 word\<close>, read with \<open>sint\<close>.
  \<^item> Floating-point values (the entries of the overlap matrix, the threshold \<open>t\<close>).  A value
    is \<open>NaN\<close>, one of the two infinities, or finite, and a finite value is the rational
    number it denotes.  The products and differences of lines 26 to 30 are whole numbers and
    are kept as they are; the quotient of line 31 is rounded to the nearest \<open>float64\<close>,
    ties to even, and \<open>astype(np.float32)\<close> rounds the clipped result again, to the nearest
    \<open>float32\<close>.  Comparison follows IEEE 754: every comparison with \<open>NaN\<close> is false.
  \<^item> The per-label counters are Python integers, modelled as \<open>int\<close>.
\<close>

type_synonym i64 = "64 word"

datatype pyfloat = NaN | NegInf | Fin rat | PosInf

text \<open>Python's \<open>x < y\<close> on floats.\<close>

fun fl_less :: "pyfloat \<Rightarrow> pyfloat \<Rightarrow> bool" where
  "fl_less NaN y = False"
| "fl_less x NaN = False"
| "fl_less x NegInf = False"
| "fl_less NegInf y = True"
| "fl_less PosInf y = False"
| "fl_less (Fin a) PosInf = True"
| "fl_less (Fin a) (Fin b) = (a < b)"

text \<open>C's \<open>x <= y\<close> on floats, as the scan of \<open>np.argmax\<close> uses it.\<close>

fun fl_le :: "pyfloat \<Rightarrow> pyfloat \<Rightarrow> bool" where
  "fl_le NaN y = False"
| "fl_le x NaN = False"
| "fl_le NegInf y = True"
| "fl_le x PosInf = True"
| "fl_le x NegInf = False"
| "fl_le PosInf y = False"
| "fl_le (Fin a) (Fin b) = (a \<le> b)"

subsection \<open>Rounding to a binary floating-point format\<close>

text \<open>
  Round half to even, on rationals; powers of two with integer exponents; and the exponent
  of a positive rational \<open>x\<close>, the \<open>e\<close> with \<open>2 ^ e \<le> x < 2 ^ (e + 1)\<close>, from the bit
  lengths of numerator and denominator.
\<close>

definition round_half_even :: "rat \<Rightarrow> int" where
  "round_half_even r =
     (let f = \<lfloor>r\<rfloor>; d = r - of_int f
      in if d < 1 / 2 then f else if 1 / 2 < d then f + 1 else if even f then f else f + 1)"

definition pow2 :: "int \<Rightarrow> rat" where
  "pow2 e = (if 0 \<le> e then 2 ^ nat e else 1 / 2 ^ nat (- e))"

definition ilog2 :: "rat \<Rightarrow> int" where
  "ilog2 x =
     (let (a, b) = quotient_of x; d = bitlen a - bitlen b
      in if pow2 d \<le> x then d else d - 1)"

text \<open>
  The value of a format with \<open>p\<close> significant bits and exponents from \<open>emin\<close> to \<open>emax\<close>
  that is nearest to \<open>x\<close>: the significand is rounded at the exponent of \<open>x\<close>, or at
  \<open>emin\<close> for a subnormal result, and a result beyond the largest finite value is an
  infinity.
\<close>

definition round_float :: "nat \<Rightarrow> int \<Rightarrow> int \<Rightarrow> rat \<Rightarrow> pyfloat" where
  "round_float p emin emax x =
     (if x = 0 then Fin 0
      else let e = max (ilog2 \<bar>x\<bar>) emin;
               q = pow2 (e - int p + 1);
               y = of_int (round_half_even (\<bar>x\<bar> / q)) * q
           in if pow2 (emax + 1) \<le> y then (if 0 < x then PosInf else NegInf)
              else Fin (if 0 < x then y else - y))"

text \<open>The result of a \<open>float64\<close> operation, and the conversion \<open>astype(np.float32)\<close>.\<close>

fun as_float64 :: "pyfloat \<Rightarrow> pyfloat" where
  "as_float64 (Fin v) = round_float 53 (- 1022) 1023 v"
| "as_float64 x = x"

fun astype_float32 :: "pyfloat \<Rightarrow> pyfloat" where
  "astype_float32 (Fin v) = round_float 24 (- 126) 127 v"
| "astype_float32 x = x"

datatype error = ValueError | ZeroDivisionError

section \<open>The greedy matching loop (\<open>main\<close>, lines 79 to 94)\<close>

subsection \<open>\<open>np.argmax\<close> and \<open>np.unravel_index\<close>\<close>

text \<open>
  \<open>np.argmax\<close> scans the flattened (row-major) array once, keeping the running maximum
  \<open>mp\<close> and its index; an element replaces the maximum when \<open>\<not> (x \<le> mp)\<close>, and a
  \<open>NaN\<close> ends the scan at once.  On an empty array it raises \<open>ValueError\<close>.
\<close>

fun argmax_from :: "pyfloat \<Rightarrow> nat \<Rightarrow> nat \<Rightarrow> pyfloat list \<Rightarrow> nat" where
  "argmax_from mp best i [] = best"
| "argmax_from mp best i (x # xs) =
     (if fl_le x mp then argmax_from mp best (Suc i) xs
      else if x = NaN then i
      else argmax_from x i (Suc i) xs)"

definition argmax :: "pyfloat list \<Rightarrow> error + nat" where
  "argmax xs =
     (case xs of
        [] \<Rightarrow> Inl ValueError
      | x # rest \<Rightarrow> Inr (if x = NaN then 0 else argmax_from x 0 1 rest))"

text \<open>The shape of a matrix held as a list of rows.\<close>

definition shape :: "'a list list \<Rightarrow> nat \<times> nat" where
  "shape m = (length m, case m of [] \<Rightarrow> 0 | row # _ \<Rightarrow> length row)"

text \<open>\<open>np.unravel_index\<close> for a two-dimensional shape; an index out of bounds raises.\<close>

definition unravel_index :: "nat \<Rightarrow> nat \<times> nat \<Rightarrow> error + nat \<times> nat" where
  "unravel_index k shp =
     (if k < fst shp * snd shp then Inr (k div snd shp, k mod snd shp) else Inl ValueError)"

text \<open>Line 82: the position of the maximum of the matrix.\<close>

definition select_max :: "pyfloat list list \<Rightarrow> error + nat \<times> nat" where
  "select_max m =
     (case argmax (concat m) of
        Inl e \<Rightarrow> Inl e
      | Inr k \<Rightarrow> unravel_index k (shape m))"

subsection \<open>Invalidating a row and a column\<close>

text \<open>Lines 88 and 89: \<open>m[r, :] = -inf\<close> and \<open>m[:, c] = -inf\<close>.\<close>

definition set_row :: "nat \<Rightarrow> pyfloat list list \<Rightarrow> pyfloat list list" where
  "set_row r m = m[r := map (\<lambda>_. NegInf) (m ! r)]"

definition set_col :: "nat \<Rightarrow> pyfloat list list \<Rightarrow> pyfloat list list" where
  "set_col c m = map (\<lambda>row. row[c := NegInf]) m"

subsection \<open>Counters and loop state\<close>

text \<open>
  \<open>acc_metrics[label]\<close> is a \<open>defaultdict(int)\<close> used with five keys; a key that was never
  written reads as 0.  It is a record of five integers.
\<close>

record counters =
  total_true :: int
  total_pred :: int
  true_positive :: int
  false_negative :: int
  false_positive :: int

definition zero_counters :: counters where
  "zero_counters =
     \<lparr>total_true = 0, total_pred = 0, true_positive = 0, false_negative = 0, false_positive = 0\<rparr>"

text \<open>
  What the \<open>while\<close> loop reads and writes: the matrix, the two sets, and the counters of
  the group's label (line 94 increments \<open>true_positive\<close> there).
\<close>

record mstate =
  pairwise_iou :: "pyfloat list list"
  used_rows :: "nat set"
  used_cols :: "nat set"
  metrics :: counters

text \<open>
  One pass through the body of \<open>while True\<close> (lines 82 to 94).  \<open>Inr None\<close> is the
  \<open>break\<close> of line 86; \<open>Inr (Some s')\<close> is the state at the end of a pass that recorded a
  match.
\<close>

definition loop_body :: "pyfloat \<Rightarrow> mstate \<Rightarrow> error + mstate option" where
  "loop_body t s =
     (case select_max (pairwise_iou s) of
        Inl e \<Rightarrow> Inl e
      | Inr (argmax_row, argmax_col) \<Rightarrow>
          let max_iou = pairwise_iou s ! argmax_row ! argmax_col in
          if fl_less max_iou t then Inr None
          else Inr (Some
            (s\<lparr>pairwise_iou := set_col argmax_col (set_row argmax_row (pairwise_iou s)),
               used_rows := insert argmax_row (used_rows s),
               used_cols := insert argmax_col (used_cols s),
               metrics := (metrics s)\<lparr>true_positive := true_positive (metrics s) + 1\<rparr>\<rparr>)))"

text \<open>The loop itself.  It has no bound of its own: not returning is the value \<open>None\<close>.\<close>

partial_function (option) match_loop :: "pyfloat \<Rightarrow> mstate \<Rightarrow> (error + mstate) option" where
  "match_loop t s =
     (case loop_body t s of
        Inl e \<Rightarrow> Some (Inl e)
      | Inr None \<Rightarrow> Some (Inr s)
      | Inr (Some s') \<Rightarrow> match_loop t s')"

declare match_loop.simps [code]

text \<open>The state after at most \<open>n\<close> passes that recorded a match.\<close>

fun loop_iter :: "nat \<Rightarrow> pyfloat \<Rightarrow> mstate \<Rightarrow> mstate" where
  "loop_iter 0 t s = s"
| "loop_iter (Suc n) t s =
     (case loop_body t s of
        Inr (Some s') \<Rightarrow> loop_iter n t s'
      | _ \<Rightarrow> s)"

text \<open>The pairs \<open>(argmax_row, argmax_col)\<close> matched by the first \<open>n\<close> passes, in order.\<close>

fun match_trace :: "nat \<Rightarrow> pyfloat \<Rightarrow> mstate \<Rightarrow> (nat \<times> nat) list" where
  "match_trace 0 t s = []"
| "match_trace (Suc n) t s =
     (case (select_max (pairwise_iou s), loop_body t s) of
        (Inr rc, Inr (Some s')) \<Rightarrow> rc # match_trace n t s'
      | _ \<Rightarrow> [])"


text \<open>An \<open>M\<times>N\<close> matrix, and the state in which line 79 leaves the loop's variables.\<close>

definition rect :: "nat \<Rightarrow> nat \<Rightarrow> 'a list list \<Rightarrow> bool" where
  "rect M N m = (length m = M \<and> (\<forall>row \<in> set m. length row = N))"

definition init_state :: "pyfloat list list \<Rightarrow> counters \<Rightarrow> mstate" where
  "init_state m c = \<lparr>pairwise_iou = m, used_rows = {}, used_cols = {}, metrics = c\<rparr>"

section \<open>Box geometry (\<open>compute_iou\<close>, lines 16 to 31)\<close>

text \<open>A row \<open>[left, top, right, bottom]\<close> of a box array.\<close>

record box =
  box_left :: i64
  box_top :: i64
  box_right :: i64
  box_bottom :: i64

text \<open>\<open>np.maximum\<close> and \<open>np.minimum\<close> on signed 64-bit integers.\<close>

definition smax :: "i64 \<Rightarrow> i64 \<Rightarrow> i64" where
  "smax a b = (if sint a \<le> sint b then b else a)"

definition smin :: "i64 \<Rightarrow> i64 \<Rightarrow> i64" where
  "smin a b = (if sint a \<le> sint b then a else b)"

text \<open>The conversion of an integer array element to \<open>float64\<close>.\<close>

definition to_float :: "i64 \<Rightarrow> rat" where
  "to_float x = of_int (sint x)"

text \<open>
  Lines 24 to 27 for one pair of boxes: \<open>rd - lu\<close> is an integer subtraction, and
  \<open>np.maximum(0.0, \<dots>)\<close> converts its result to floating point.
\<close>

definition intersection_area :: "box \<Rightarrow> box \<Rightarrow> rat" where
  "intersection_area b1 b2 =
     (let lu = (smax (box_left b1) (box_left b2), smax (box_top b1) (box_top b2));
          rd = (smin (box_right b1) (box_right b2), smin (box_bottom b1) (box_bottom b2));
          intersection = (max 0 (to_float (fst rd - fst lu)), max 0 (to_float (snd rd - snd lu)))
      in fst intersection * snd intersection)"

text \<open>Lines 28 and 29: the area of a box, an integer product.\<close>

definition boxes_area :: "box \<Rightarrow> i64" where
  "boxes_area b = (box_right b - box_left b) * (box_bottom b - box_top b)"

definition eps :: rat where
  "eps = 1 / 10 ^ 32"

text \<open>Line 30: the two areas are added as integers before the float is subtracted.\<close>

definition union_area :: "box \<Rightarrow> box \<Rightarrow> rat" where
  "union_area b1 b2 =
     max (to_float (boxes_area b1 + boxes_area b2) - intersection_area b1 b2) eps"

text \<open>
  numpy's floating-point division does not raise: a zero denominator gives an infinity or,
  for \<open>0 / 0\<close>, \<open>NaN\<close>.  \<open>np_divide\<close> is the quotient before it is rounded.
\<close>

definition np_divide :: "rat \<Rightarrow> rat \<Rightarrow> pyfloat" where
  "np_divide x y =
     (if y = 0 then (if x = 0 then NaN else if 0 < x then PosInf else NegInf)
      else Fin (x / y))"

fun np_clip :: "pyfloat \<Rightarrow> rat \<Rightarrow> rat \<Rightarrow> pyfloat" where
  "np_clip NaN lo hi = NaN"
| "np_clip NegInf lo hi = Fin lo"
| "np_clip PosInf lo hi = Fin hi"
| "np_clip (Fin v) lo hi = Fin (min (max v lo) hi)"

text \<open>
  Line 31 for one pair of boxes: the \<open>float64\<close> quotient, clipped, converted to
  \<open>float32\<close>; and the whole matrix.
\<close>

definition iou :: "box \<Rightarrow> box \<Rightarrow> pyfloat" where
  "iou b1 b2 =
     astype_float32
       (np_clip (as_float64 (np_divide (intersection_area b1 b2) (union_area b1 b2))) 0 1)"

definition compute_iou :: "box list \<Rightarrow> box list \<Rightarrow> pyfloat list list" where
  "compute_iou boxes1 boxes2 = map (\<lambda>b1. map (\<lambda>b2. iou b1 b2) boxes2) boxes1"

section \<open>The group driver (\<open>main\<close>, lines 59 to 102)\<close>

text \<open>A row of the data frame that \<open>read_detections_file\<close> returns.\<close>

record detection =
  image_name :: string
  bbox :: box
  label :: string
  score :: rat

text \<open>Lines 71 to 94: the matrix of the group, the empty sets, and the loop.\<close>

definition match_group :: "pyfloat \<Rightarrow> box list \<Rightarrow> box list \<Rightarrow> counters \<Rightarrow> (error + mstate) option" where
  "match_group t true_boxes pred_boxes c =
     match_loop t (init_state (compute_iou true_boxes pred_boxes) c)"

text \<open>
  Lines 64 to 97, the body of the \<open>for\<close> loop, on the counters of the group's label.
\<close>

definition process_group :: "pyfloat \<Rightarrow> box list \<Rightarrow> box list \<Rightarrow> counters \<Rightarrow> (error + counters) option" where
  "process_group t true_boxes pred_boxes c =
     (let c1 = c\<lparr>total_true := total_true c + int (length true_boxes),
                 total_pred := total_pred c + int (length pred_boxes)\<rparr>
      in if 0 < length true_boxes \<and> length pred_boxes = 0
         then Some (Inr (c1\<lparr>false_negative := false_negative c1 + int (length true_boxes)\<rparr>))
         else (case match_group t true_boxes pred_boxes c1 of
                 None \<Rightarrow> None
               | Some (Inl e) \<Rightarrow> Some (Inl e)
               | Some (Inr s) \<Rightarrow> Some (Inr ((metrics s)
                   \<lparr>false_negative := false_negative (metrics s)
                       + int (card ({0..<length true_boxes} - used_rows s)),
                    false_positive := false_positive (metrics s)
                       + int (card ({0..<length pred_boxes} - used_cols s))\<rparr>))))"

text \<open>
  \<open>acc_metrics\<close>: a \<open>defaultdict\<close> from label to counters, in insertion order.  Reading a
  label that is not there gives counters that are all 0.
\<close>

type_synonym acc = "(string \<times> counters) list"

definition acc_get :: "acc \<Rightarrow> string \<Rightarrow> counters" where
  "acc_get a l = (case map_of a l of None \<Rightarrow> zero_counters | Some c \<Rightarrow> c)"

fun acc_put :: "acc \<Rightarrow> string \<Rightarrow> counters \<Rightarrow> acc" where
  "acc_put [] l c = [(l, c)]"
| "acc_put ((k, v) # a) l c = (if k = l then (k, c) # a else (k, v) # acc_put a l c)"

text \<open>
  Line 61: \<open>groupby\<close> yields one group per pair \<open>(image_name, label)\<close> that occurs in the
  ground truth, in sorted order of the pairs.
\<close>

definition group_keys :: "detection list \<Rightarrow> (string \<times> string) list" where
  "group_keys ground_truth = sort (remdups (map (\<lambda>d. (image_name d, label d)) ground_truth))"

definition select_rows :: "detection list \<Rightarrow> string \<Rightarrow> string \<Rightarrow> detection list" where
  "select_rows df img l = filter (\<lambda>d. image_name d = img \<and> label d = l) df"

fun run_groups ::
  "pyfloat \<Rightarrow> detection list \<Rightarrow> detection list \<Rightarrow> (string \<times> string) list \<Rightarrow> acc \<Rightarrow> (error + acc) option" where
  "run_groups t ground_truth detection_results [] a = Some (Inr a)"
| "run_groups t ground_truth detection_results ((img, l) # ks) a =
     (let true_df = select_rows ground_truth img l;
          pred_df = select_rows detection_results img l
      in case process_group t (map bbox true_df) (map bbox pred_df) (acc_get a l) of
           None \<Rightarrow> None
         | Some (Inl e) \<Rightarrow> Some (Inl e)
         | Some (Inr c) \<Rightarrow> run_groups t ground_truth detection_results ks (acc_put a l c))"

text \<open>Lines 59 to 97: the counters after all groups.\<close>

definition accumulate :: "pyfloat \<Rightarrow> detection list \<Rightarrow> detection list \<Rightarrow> (error + acc) option" where
  "accumulate t ground_truth detection_results =
     run_groups t ground_truth detection_results (group_keys ground_truth) []"

text \<open>
  Lines 100 to 102 for one label.  Python's \<open>/\<close> raises \<open>ZeroDivisionError\<close> on a zero
  denominator, for integers and for floats alike.
\<close>

definition py_div :: "rat \<Rightarrow> rat \<Rightarrow> error + rat" where
  "py_div x y = (if y = 0 then Inl ZeroDivisionError else Inr (x / y))"

definition label_scores :: "counters \<Rightarrow> error + rat \<times> rat \<times> rat" where
  "label_scores m =
     (case py_div (of_int (true_positive m)) (of_int (true_positive m + false_positive m)) of
        Inl e \<Rightarrow> Inl e
      | Inr precision \<Rightarrow>
          (case py_div (of_int (true_positive m)) (of_int (true_positive m + false_negative m)) of
             Inl e \<Rightarrow> Inl e
           | Inr recall \<Rightarrow>
               (case py_div (2 * (precision * recall)) (precision + recall) of
                  Inl e \<Rightarrow> Inl e
                | Inr f1_score \<Rightarrow> Inr (precision, recall, f1_score))))"

text \<open>Lines 99 to 108: the scores of every label, in order, up to the first failure.\<close>

fun report :: "acc \<Rightarrow> error + (string \<times> rat \<times> rat \<times> rat) list" where
  "report [] = Inr []"
| "report ((l, m) # a) =
     (case label_scores m of
        Inl e \<Rightarrow> Inl e
      | Inr sc \<Rightarrow> (case report a of Inl e \<Rightarrow> Inl e | Inr out \<Rightarrow> Inr ((l, sc) # out)))"

definition main :: "pyfloat \<Rightarrow> detection list \<Rightarrow> detection list \<Rightarrow> (error + (string \<times> rat \<times> rat \<times> rat) list) option" where
  "main t ground_truth detection_results =
     (case accumulate t ground_truth detection_results of
        None \<Rightarrow> None
      | Some (Inl e) \<Rightarrow> Some (Inl e)
      | Some (Inr a) \<Rightarrow> Some (report a))"

section \<open>Predicates of the verification\<close>

text \<open>
  The invariant of the matching loop for an \<open>M\<times>N\<close> matrix that started as \<open>m0\<close> with
  \<open>true_positive = tp0\<close>: the matrix keeps its shape, the used indices are in range, an
  entry is \<open>-inf\<close> exactly in the used rows and columns and otherwise still what it was,
  and the two sets have as many elements as matches were counted.
\<close>

definition loop_inv :: "nat \<Rightarrow> nat \<Rightarrow> pyfloat list list \<Rightarrow> int \<Rightarrow> mstate \<Rightarrow> bool" where
  "loop_inv M N m0 tp0 s =
     (rect M N (pairwise_iou s) \<and>
      used_rows s \<subseteq> {..<M} \<and> used_cols s \<subseteq> {..<N} \<and>
      (\<forall>i<M. \<forall>j<N. pairwise_iou s ! i ! j =
          (if i \<in> used_rows s \<or> j \<in> used_cols s then NegInf else m0 ! i ! j)) \<and>
      card (used_rows s) = card (used_cols s) \<and>
      true_positive (metrics s) = tp0 + int (card (used_rows s)))"

section \<open>Box geometry in the words of the specification\<close>

text \<open>
  The overlap ratio as the specification describes it, on the mathematical values of the
  coordinates: the intersection rectangle with width and height clamped at 0, the union
  area floored at \<open>eps\<close>, the floating-point quotient clipped to \<open>[0, 1]\<close> and converted to
  a 32-bit float.  It is compared with \<open>compute_iou\<close> below.
\<close>

definition well_formed :: "box \<Rightarrow> bool" where
  "well_formed b =
     (sint (box_left b) \<le> sint (box_right b) \<and> sint (box_top b) \<le> sint (box_bottom b))"

definition width :: "box \<Rightarrow> int" where
  "width b = sint (box_right b) - sint (box_left b)"

definition height :: "box \<Rightarrow> int" where
  "height b = sint (box_bottom b) - sint (box_top b)"

definition area :: "box \<Rightarrow> int" where
  "area b = width b * height b"

definition degenerate :: "box \<Rightarrow> bool" where
  "degenerate b = (area b = 0)"

definition overlap_width :: "box \<Rightarrow> box \<Rightarrow> int" where
  "overlap_width b1 b2 =
     min (sint (box_right b1)) (sint (box_right b2)) - max (sint (box_left b1)) (sint (box_left b2))"

definition overlap_height :: "box \<Rightarrow> box \<Rightarrow> int" where
  "overlap_height b1 b2 =
     min (sint (box_bottom b1)) (sint (box_bottom b2)) - max (sint (box_top b1)) (sint (box_top b2))"

definition overlap_ratio :: "box \<Rightarrow> box \<Rightarrow> rat" where
  "overlap_ratio b1 b2 =
     (let inter = of_int (max 0 (overlap_width b1 b2)) * of_int (max 0 (overlap_height b1 b2));
          union = max (of_int (area b1) + of_int (area b2) - inter) eps
      in inter / union)"

definition iou_spec :: "box \<Rightarrow> box \<Rightarrow> pyfloat" where
  "iou_spec b1 b2 = astype_float32 (np_clip (as_float64 (Fin (overlap_ratio b1 b2))) 0 1)"

text \<open>
  The integers that lines 24 to 30 compute for a pair of boxes all fit into 64 bits: the
  two differences \<open>rd - lu\<close>, the widths and heights, the two areas and their sum.
\<close>

definition fits64 :: "int \<Rightarrow> bool" where
  "fits64 x = (- (2 ^ 63) \<le> x \<and> x < 2 ^ 63)"

definition no_overflow :: "box \<Rightarrow> box \<Rightarrow> bool" where
  "no_overflow b1 b2 =
     (fits64 (overlap_width b1 b2) \<and> fits64 (overlap_height b1 b2) \<and>
      fits64 (width b1) \<and> fits64 (height b1) \<and> fits64 (width b2) \<and> fits64 (height b2) \<and>
      fits64 (area b1) \<and> fits64 (area b2) \<and> fits64 (area b1 + area b2))"


section \<open>Flat indices and matrix updates\<close>

lemma argmax_from_bound: "best < i \<Longrightarrow> argmax_from mp best i xs < i + length xs"
proof (induction xs arbitrary: mp best i)
  case Nil then show ?case by simp
next
  case (Cons x xs)
  have a: "argmax_from mp best (Suc i) xs < Suc i + length xs"
    using Cons.prems by (intro Cons.IH) simp
  have b: "argmax_from x i (Suc i) xs < Suc i + length xs"
    by (intro Cons.IH) simp
  show ?case using a b by simp
qed

lemma argmax_lt: "argmax xs = Inr k \<Longrightarrow> k < length xs"
proof (cases xs)
  case Nil then show "argmax xs = Inr k \<Longrightarrow> k < length xs" by (simp add: argmax_def)
next
  case (Cons x rest)
  assume "argmax xs = Inr k"
  then have k: "k = (if x = NaN then 0 else argmax_from x 0 1 rest)"
    using Cons by (simp add: argmax_def)
  have "argmax_from x 0 1 rest < 1 + length rest"
    by (rule argmax_from_bound) simp
  then show ?thesis using k Cons by simp
qed

lemma argmax_nonempty: "xs \<noteq> [] \<Longrightarrow> \<exists>k. argmax xs = Inr k"
  by (cases xs) (simp_all add: argmax_def)

lemma length_concat_rect: "rect M N m \<Longrightarrow> length (concat m) = M * N"
proof (induction m arbitrary: M)
  case Nil then show ?case by (simp add: rect_def)
next
  case (Cons row m)
  then have "rect (length m) N m" and "length row = N" and "M = Suc (length m)"
    by (auto simp: rect_def)
  then show ?case using Cons.IH[of "length m"] by simp
qed

lemma nth_concat_rect:
  "rect M N m \<Longrightarrow> i < M \<Longrightarrow> j < N \<Longrightarrow> concat m ! (i * N + j) = m ! i ! j"
proof (induction m arbitrary: M i)
  case Nil then show ?case by (simp add: rect_def)
next
  case (Cons row m)
  then have r: "rect (length m) N m" and l: "length row = N" and M: "M = Suc (length m)"
    by (auto simp: rect_def)
  show ?case
  proof (cases i)
    case 0 then show ?thesis using l Cons.prems by (simp add: nth_append)
  next
    case (Suc i')
    then have "i' < length m" using Cons.prems M by simp
    then have "concat m ! (i' * N + j) = m ! i' ! j"
      using Cons.IH[OF r _ Cons.prems(3)] by simp
    then show ?thesis using Suc l by (simp add: nth_append)
  qed
qed

lemma shape_rect: "rect M N m \<Longrightarrow> 0 < M \<Longrightarrow> shape m = (M, N)"
  by (cases m) (auto simp: rect_def shape_def)

lemma select_max_rect:
  assumes "rect M N m" "0 < M" "0 < N"
  shows "\<exists>k r c. argmax (concat m) = Inr k \<and> k < M * N \<and> select_max m = Inr (r, c) \<and>
           r = k div N \<and> c = k mod N \<and> r < M \<and> c < N \<and> concat m ! k = m ! r ! c"
proof -
  have len: "length (concat m) = M * N" by (rule length_concat_rect[OF assms(1)])
  then have "0 < length (concat m)" using assms by simp
  then obtain x rest where "concat m = x # rest" by (cases "concat m") auto
  then obtain k where k: "argmax (concat m) = Inr k" by (simp add: argmax_def)
  then have kl: "k < M * N" using argmax_lt len by metis
  have r: "k div N < M" using kl assms(3) by (simp add: less_mult_imp_div_less)
  have c: "k mod N < N" using assms(3) by simp
  have "concat m ! (k div N * N + k mod N) = m ! (k div N) ! (k mod N)"
    by (rule nth_concat_rect[OF assms(1) r c])
  then have e: "concat m ! k = m ! (k div N) ! (k mod N)" by simp
  have "select_max m = Inr (k div N, k mod N)"
    using k kl shape_rect[OF assms(1,2)] by (simp add: select_max_def unravel_index_def)
  then show ?thesis using k kl r c e by blast
qed

lemma select_max_empty:
  assumes "rect M N m" "M = 0 \<or> N = 0"
  shows "select_max m = Inl ValueError"
proof -
  have "length (concat m) = 0" using length_concat_rect[OF assms(1)] assms(2) by auto
  then have e: "concat m = []" by (cases "concat m") auto
  have "argmax (concat m) = Inl ValueError" unfolding e by (simp add: argmax_def)
  then show ?thesis by (simp add: select_max_def)
qed

lemma rect_set_row: "rect M N m \<Longrightarrow> r < M \<Longrightarrow> rect M N (set_row r m)"
  unfolding rect_def set_row_def
  by (auto dest!: set_update_subset_insert[THEN subsetD])

lemma rect_set_col: "rect M N m \<Longrightarrow> rect M N (set_col c m)"
  unfolding rect_def set_col_def by auto

lemma nth_invalidate:
  assumes "rect M N m" "r < M" "i < M" "j < N"
  shows "set_col c (set_row r m) ! i ! j = (if i = r \<or> j = c then NegInf else m ! i ! j)"
proof -
  have lr: "length (m ! r) = N" and li: "length (m ! i) = N"
    using assms by (auto simp: rect_def)
  have "set_col c (set_row r m) ! i = (set_row r m ! i)[c := NegInf]"
    using assms by (simp add: set_col_def set_row_def rect_def)
  moreover have "set_row r m ! i = (if i = r then map (\<lambda>_. NegInf) (m ! r) else m ! i)"
    using assms by (simp add: set_row_def rect_def)
  ultimately show ?thesis using lr li assms(4)
    by (cases "c = j") auto
qed

section \<open>The loop invariant\<close>

lemma loop_inv_init: "rect M N m \<Longrightarrow> loop_inv M N m (true_positive c) (init_state m c)"
  by (simp add: loop_inv_def init_state_def)

lemma fl_less_NegInf: "t \<noteq> NaN \<Longrightarrow> t \<noteq> NegInf \<Longrightarrow> fl_less NegInf t"
  by (cases t) simp_all

lemma loop_body_cases:
  assumes "rect M N (pairwise_iou s)" "0 < M" "0 < N"
  obtains (brk) r c where "select_max (pairwise_iou s) = Inr (r, c)" "r < M" "c < N"
      "fl_less (pairwise_iou s ! r ! c) t" "loop_body t s = Inr None"
    | (cont) r c where "select_max (pairwise_iou s) = Inr (r, c)" "r < M" "c < N"
      "\<not> fl_less (pairwise_iou s ! r ! c) t"
      "loop_body t s = Inr (Some
            (s\<lparr>pairwise_iou := set_col c (set_row r (pairwise_iou s)),
               used_rows := insert r (used_rows s),
               used_cols := insert c (used_cols s),
               metrics := (metrics s)\<lparr>true_positive := true_positive (metrics s) + 1\<rparr>\<rparr>))"
proof -
  obtain r c where rc: "select_max (pairwise_iou s) = Inr (r, c)" "r < M" "c < N"
    using select_max_rect[OF assms] by blast
  show thesis
  proof (cases "fl_less (pairwise_iou s ! r ! c) t")
    case True
    then have "loop_body t s = Inr None" using rc by (simp add: loop_body_def)
    then show thesis using brk rc True by blast
  next
    case False
    then show thesis using rc by (intro cont[of r c]) (simp_all add: loop_body_def)
  qed
qed

lemma loop_inv_step:
  assumes inv: "loop_inv M N m0 tp0 s" and t: "t \<noteq> NaN" "t \<noteq> NegInf"
    and sel: "select_max (pairwise_iou s) = Inr (r, c)" "r < M" "c < N"
    and nl: "\<not> fl_less (pairwise_iou s ! r ! c) t"
    and s': "s' = s\<lparr>pairwise_iou := set_col c (set_row r (pairwise_iou s)),
               used_rows := insert r (used_rows s),
               used_cols := insert c (used_cols s),
               metrics := (metrics s)\<lparr>true_positive := true_positive (metrics s) + 1\<rparr>\<rparr>"
  shows "loop_inv M N m0 tp0 s' \<and> r \<notin> used_rows s \<and> c \<notin> used_cols s"
proof -
  have rect: "rect M N (pairwise_iou s)" using inv by (simp add: loop_inv_def)
  have ne: "pairwise_iou s ! r ! c \<noteq> NegInf" using nl fl_less_NegInf[OF t] by auto
  have ent: "pairwise_iou s ! r ! c =
          (if r \<in> used_rows s \<or> c \<in> used_cols s then NegInf else m0 ! r ! c)"
    using inv sel by (simp add: loop_inv_def)
  have fresh: "r \<notin> used_rows s" "c \<notin> used_cols s" using ne ent by (auto split: if_splits)
  have fin: "finite (used_rows s)" "finite (used_cols s)"
    using inv by (auto simp: loop_inv_def intro: finite_subset)
  have 1: "rect M N (pairwise_iou s')"
    using rect sel s' by (simp add: rect_set_row rect_set_col)
  have 2: "used_rows s' \<subseteq> {..<M}" "used_cols s' \<subseteq> {..<N}"
    using inv sel s' by (auto simp: loop_inv_def)
  have 3: "\<forall>i<M. \<forall>j<N. pairwise_iou s' ! i ! j =
          (if i \<in> used_rows s' \<or> j \<in> used_cols s' then NegInf else m0 ! i ! j)"
  proof (intro allI impI)
    fix i j assume ij: "i < M" "j < N"
    have "pairwise_iou s' ! i ! j = (if i = r \<or> j = c then NegInf else pairwise_iou s ! i ! j)"
      using nth_invalidate[OF rect sel(2) ij] s' by simp
    moreover have "pairwise_iou s ! i ! j =
          (if i \<in> used_rows s \<or> j \<in> used_cols s then NegInf else m0 ! i ! j)"
      using inv ij by (simp add: loop_inv_def)
    ultimately show "pairwise_iou s' ! i ! j =
          (if i \<in> used_rows s' \<or> j \<in> used_cols s' then NegInf else m0 ! i ! j)"
      using s' by auto
  qed
  have 4: "card (used_rows s') = Suc (card (used_rows s))" "card (used_cols s') = Suc (card (used_cols s))"
    using fresh fin s' by simp_all
  have 5: "card (used_rows s') = card (used_cols s')"
    using 4 inv by (simp add: loop_inv_def)
  have 6: "true_positive (metrics s') = tp0 + int (card (used_rows s'))"
    using 4 inv s' by (simp add: loop_inv_def)
  show ?thesis using 1 2 3 5 6 fresh unfolding loop_inv_def by blast
qed


lemma loop_iter_terminates:
  assumes t: "t \<noteq> NaN" "t \<noteq> NegInf" and pos: "0 < M" "0 < N"
  shows "loop_inv M N m0 tp0 s \<Longrightarrow>
      \<exists>n. loop_body t (loop_iter n t s) = Inr None \<and> loop_inv M N m0 tp0 (loop_iter n t s) \<and>
          card (used_rows (loop_iter n t s)) = card (used_rows s) + n"
proof (induction "M - card (used_rows s)" arbitrary: s rule: less_induct)
  case less
  have rect: "rect M N (pairwise_iou s)" using less.prems by (simp add: loop_inv_def)
  show ?case
  using rect pos
  proof (cases rule: loop_body_cases[where t = t])
    case (brk r c)
    then have "loop_body t (loop_iter 0 t s) = Inr None" by simp
    then show ?thesis using less.prems by (intro exI[of _ 0]) simp
  next
    case (cont r c)
    define s' where "s' = s\<lparr>pairwise_iou := set_col c (set_row r (pairwise_iou s)),
               used_rows := insert r (used_rows s),
               used_cols := insert c (used_cols s),
               metrics := (metrics s)\<lparr>true_positive := true_positive (metrics s) + 1\<rparr>\<rparr>"
    have step: "loop_body t s = Inr (Some s')" using cont(5) s'_def by simp
    have inv': "loop_inv M N m0 tp0 s'" and fresh: "r \<notin> used_rows s"
      using loop_inv_step[OF less.prems t cont(1,2,3,4) s'_def] by simp_all
    have fin: "finite (used_rows s)"
      using less.prems by (auto simp: loop_inv_def intro: finite_subset)
    have c': "card (used_rows s') = Suc (card (used_rows s))"
      using fresh fin by (simp add: s'_def)
    have "used_rows s' \<subseteq> {..<M}" using inv' by (simp add: loop_inv_def)
    then have "card (used_rows s') \<le> M" using subset_eq_atLeast0_lessThan_card
      by (metis card_lessThan card_mono finite_lessThan)
    then have "M - card (used_rows s') < M - card (used_rows s)" using c' by simp
    from less.hyps[OF this inv'] obtain n where
      n: "loop_body t (loop_iter n t s') = Inr None" "loop_inv M N m0 tp0 (loop_iter n t s')"
         "card (used_rows (loop_iter n t s')) = card (used_rows s') + n" by blast
    have "loop_iter (Suc n) t s = loop_iter n t s'" using step by simp
    then show ?thesis using n c' by (intro exI[of _ "Suc n"]) simp
  qed
qed

lemma match_loop_iter:
  "loop_body t (loop_iter n t s) = Inr None \<Longrightarrow> match_loop t s = Some (Inr (loop_iter n t s))"
proof (induction n arbitrary: s)
  case 0
  then show ?case by (subst match_loop.simps) simp
next
  case (Suc n)
  show ?case
  proof (cases "loop_body t s")
    case (Inl e)
    then show ?thesis using Suc.prems by simp
  next
    case (Inr o1)
    show ?thesis
    proof (cases o1)
      case None
      then show ?thesis using Inr by (subst match_loop.simps) simp
    next
      case (Some s')
      then have "loop_iter (Suc n) t s = loop_iter n t s'" using Inr by simp
      moreover have "match_loop t s = match_loop t s'"
        using Inr Some by (subst match_loop.simps) simp
      ultimately show ?thesis using Suc.IH[of s'] Suc.prems by simp
    qed
  qed
qed

lemma loop_inv_card_le:
  assumes "loop_inv M N m0 tp0 s" shows "card (used_rows s) \<le> min M N"
proof -
  have "card (used_rows s) \<le> card {..<M}" using assms
    by (intro card_mono) (simp_all add: loop_inv_def)
  moreover have "card (used_cols s) \<le> card {..<N}" using assms
    by (intro card_mono) (simp_all add: loop_inv_def)
  moreover have "card (used_rows s) = card (used_cols s)" using assms by (simp add: loop_inv_def)
  ultimately show ?thesis by simp
qed

section \<open>Termination of the matching loop\<close>

text \<open>
  C3, as amended.  For an \<open>M\<times>N\<close> matrix and a threshold that is neither \<open>NaN\<close> nor
  \<open>-inf\<close>, the loop returns after at most \<open>min M N\<close> passes that record a match: the state
  it returns is the one reached after \<open>n \<le> min M N\<close> such passes, each of which has added
  one to \<open>true_positive\<close>.  On an empty matrix \<open>np.argmax\<close> raises before any pass.
\<close>

theorem greedy_loop_terminates:
  assumes "rect M N m" "t \<noteq> NaN" "t \<noteq> NegInf"
  shows "if M = 0 \<or> N = 0
         then match_loop t (init_state m c) = Some (Inl ValueError)
         else (\<exists>n\<le>min M N.
                 match_loop t (init_state m c) = Some (Inr (loop_iter n t (init_state m c))) \<and>
                 true_positive (metrics (loop_iter n t (init_state m c))) = true_positive c + int n)"
proof (cases "M = 0 \<or> N = 0")
  case True
  then have "select_max m = Inl ValueError" using select_max_empty[OF assms(1)] by simp
  then have "loop_body t (init_state m c) = Inl ValueError"
    by (simp add: loop_body_def init_state_def)
  then have "match_loop t (init_state m c) = Some (Inl ValueError)"
    by (subst match_loop.simps) simp
  then show ?thesis using True by simp
next
  case False
  then have pos: "0 < M" "0 < N" by simp_all
  let ?s = "init_state m c"
  have inv: "loop_inv M N m (true_positive c) ?s" by (rule loop_inv_init[OF assms(1)])
  from loop_iter_terminates[OF assms(2,3) pos inv] obtain n where
    n: "loop_body t (loop_iter n t ?s) = Inr None" "loop_inv M N m (true_positive c) (loop_iter n t ?s)"
       "card (used_rows (loop_iter n t ?s)) = card (used_rows ?s) + n" by blast
  have cn: "card (used_rows (loop_iter n t ?s)) = n" using n(3) by (simp add: init_state_def)
  have "n \<le> min M N" using loop_inv_card_le[OF n(2)] cn by simp
  moreover have "match_loop t ?s = Some (Inr (loop_iter n t ?s))" by (rule match_loop_iter[OF n(1)])
  moreover have "true_positive (metrics (loop_iter n t ?s)) = true_positive c + int n"
    using n(2) cn by (simp add: loop_inv_def)
  ultimately show ?thesis using False by auto
qed


text \<open>
  A threshold of \<open>NaN\<close> or \<open>-inf\<close> makes the test of line 85 false for every value, also
  for the \<open>-inf\<close> of an exhausted matrix: the loop then never reaches its \<open>break\<close>.
\<close>

lemma fl_less_never: "t = NaN \<or> t = NegInf \<Longrightarrow> \<not> fl_less x t"
  by (cases x; cases t) simp_all

lemma match_loop_never_returns:
  assumes ret: "match_loop t s = Some y"
  shows "(t = NaN \<or> t = NegInf) \<and> rect M N (pairwise_iou s) \<and> 0 < M \<and> 0 < N \<longrightarrow> False"
proof (rule match_loop.raw_induct[where P = "\<lambda>t s y.
      (t = NaN \<or> t = NegInf) \<and> rect M N (pairwise_iou s) \<and> 0 < M \<and> 0 < N \<longrightarrow> False", OF _ ret])
  fix f t s y
  assume IH: "\<And>t s y. f t s = Some y \<Longrightarrow>
      (t = NaN \<or> t = NegInf) \<and> rect M N (pairwise_iou s) \<and> 0 < M \<and> 0 < N \<longrightarrow> False"
    and body: "(case loop_body t s of Inl e \<Rightarrow> Some (Inl e) | Inr None \<Rightarrow> Some (Inr s)
      | Inr (Some s') \<Rightarrow> f t s') = Some y"
  show "(t = NaN \<or> t = NegInf) \<and> rect M N (pairwise_iou s) \<and> 0 < M \<and> 0 < N \<longrightarrow> False"
  proof
    assume a: "(t = NaN \<or> t = NegInf) \<and> rect M N (pairwise_iou s) \<and> 0 < M \<and> 0 < N"
    then have rect: "rect M N (pairwise_iou s)" and pos: "0 < M" "0 < N" by simp_all
    from rect pos show False
    proof (cases rule: loop_body_cases[where t = t])
      case (brk r c)
      then show False using a fl_less_never by blast
    next
      case (cont r c)
      let ?s' = "s\<lparr>pairwise_iou := set_col c (set_row r (pairwise_iou s)),
               used_rows := insert r (used_rows s),
               used_cols := insert c (used_cols s),
               metrics := (metrics s)\<lparr>true_positive := true_positive (metrics s) + 1\<rparr>\<rparr>"
      have "f t ?s' = Some y" using body cont(5) by simp
      moreover have "rect M N (pairwise_iou ?s')"
        using rect cont(2) by (simp add: rect_set_row rect_set_col)
      ultimately show False using IH[of t ?s' y] a by blast
    qed
  qed
qed

text \<open>
  C3, as stated, fails: with threshold \<open>-inf\<close> the loop does not return on the \<open>1\<times>1\<close>
  matrix \<open>[[1.0]]\<close>.
\<close>

theorem greedy_loop_diverges: "match_loop NegInf (init_state [[Fin 1]] zero_counters) = None"
proof (cases "match_loop NegInf (init_state [[Fin 1]] zero_counters)")
  case None then show ?thesis .
next
  case (Some y)
  have "rect 1 1 (pairwise_iou (init_state [[Fin 1]] zero_counters))"
    by (simp add: rect_def init_state_def)
  then show ?thesis using match_loop_never_returns[OF Some, of 1 1] by simp
qed

theorem greedy_loop_terminates_witness:
  "rect 2 2 [[Fin (1/2), Fin 0], [Fin 0, Fin 1]] \<and> Fin (1/2) \<noteq> NaN \<and> Fin (1/2) \<noteq> NegInf \<and>
   (\<exists>n\<le>2. match_loop (Fin (1/2)) (init_state [[Fin (1/2), Fin 0], [Fin 0, Fin 1]] zero_counters)
        = Some (Inr (loop_iter n (Fin (1/2)) (init_state [[Fin (1/2), Fin 0], [Fin 0, Fin 1]] zero_counters))) \<and>
      true_positive (metrics (loop_iter n (Fin (1/2))
          (init_state [[Fin (1/2), Fin 0], [Fin 0, Fin 1]] zero_counters))) = true_positive zero_counters + int n)"
proof -
  have r: "rect 2 2 [[Fin (1/2), Fin 0], [Fin 0, Fin 1]]" by (simp add: rect_def)
  show ?thesis
    using r greedy_loop_terminates[OF r, of "Fin (1/2)" zero_counters] by simp
qed

section \<open>What a pass changes\<close>

lemma loop_body_Some:
  assumes "loop_body t s = Inr (Some s')"
  obtains r c where "select_max (pairwise_iou s) = Inr (r, c)"
    "\<not> fl_less (pairwise_iou s ! r ! c) t"
    "s' = s\<lparr>pairwise_iou := set_col c (set_row r (pairwise_iou s)),
               used_rows := insert r (used_rows s),
               used_cols := insert c (used_cols s),
               metrics := (metrics s)\<lparr>true_positive := true_positive (metrics s) + 1\<rparr>\<rparr>"
  using assms unfolding loop_body_def
  by (auto split: sum.splits prod.splits if_splits simp: Let_def)

lemma loop_body_None:
  assumes "loop_body t s = Inr None"
  obtains r c where "select_max (pairwise_iou s) = Inr (r, c)"
    "fl_less (pairwise_iou s ! r ! c) t"
  using assms unfolding loop_body_def
  by (auto split: sum.splits prod.splits if_splits simp: Let_def)

lemma used_loop_iter:
  "used_rows (loop_iter n t s) = used_rows s \<union> fst ` set (match_trace n t s) \<and>
   used_cols (loop_iter n t s) = used_cols s \<union> snd ` set (match_trace n t s)"
proof (induction n arbitrary: s)
  case 0 show ?case by simp
next
  case (Suc n)
  show ?case
  proof (cases "loop_body t s")
    case (Inl e) then show ?thesis by (simp split: sum.splits)
  next
    case (Inr o1)
    show ?thesis
    proof (cases o1)
      case None then show ?thesis using Inr by (simp split: sum.splits)
    next
      case (Some s')
      then have b: "loop_body t s = Inr (Some s')" using Inr by simp
      from b obtain r c where rc: "select_max (pairwise_iou s) = Inr (r, c)"
        "s' = s\<lparr>pairwise_iou := set_col c (set_row r (pairwise_iou s)),
               used_rows := insert r (used_rows s),
               used_cols := insert c (used_cols s),
               metrics := (metrics s)\<lparr>true_positive := true_positive (metrics s) + 1\<rparr>\<rparr>"
        by (rule loop_body_Some)
      have ur: "used_rows s' = insert r (used_rows s)" and uc: "used_cols s' = insert c (used_cols s)"
        using rc(2) by simp_all
      have "loop_iter (Suc n) t s = loop_iter n t s'" using b by simp
      moreover have "match_trace (Suc n) t s = (r, c) # match_trace n t s'" using b rc(1) by simp
      ultimately show ?thesis using Suc.IH[of s'] ur uc by auto
    qed
  qed
qed

lemma metrics_loop_iter:
  "total_true (metrics (loop_iter n t s)) = total_true (metrics s) \<and>
   total_pred (metrics (loop_iter n t s)) = total_pred (metrics s) \<and>
   false_negative (metrics (loop_iter n t s)) = false_negative (metrics s) \<and>
   false_positive (metrics (loop_iter n t s)) = false_positive (metrics s)"
proof (induction n arbitrary: s)
  case 0 show ?case by simp
next
  case (Suc n)
  show ?case
  proof (cases "loop_body t s")
    case (Inl e) then show ?thesis by simp
  next
    case (Inr o1)
    show ?thesis
    proof (cases o1)
      case None then show ?thesis using Inr by simp
    next
      case (Some s')
      then have b: "loop_body t s = Inr (Some s')" using Inr by simp
      from b have m: "metrics s' = (metrics s)\<lparr>true_positive := true_positive (metrics s) + 1\<rparr>"
        by (rule loop_body_Some) simp
      have "loop_iter (Suc n) t s = loop_iter n t s'" using b by simp
      then show ?thesis using Suc.IH[of s'] m by simp
    qed
  qed
qed

lemma trace_distinct:
  assumes t: "t \<noteq> NaN" "t \<noteq> NegInf"
  shows "loop_inv M N m0 tp0 s \<Longrightarrow>
     distinct (map fst (match_trace n t s)) \<and> fst ` set (match_trace n t s) \<inter> used_rows s = {} \<and>
     distinct (map snd (match_trace n t s)) \<and> snd ` set (match_trace n t s) \<inter> used_cols s = {}"
proof (induction n arbitrary: s)
  case 0 show ?case by simp
next
  case (Suc n)
  show ?case
  proof (cases "loop_body t s")
    case (Inl e) then show ?thesis by (simp split: sum.splits)
  next
    case (Inr o1)
    show ?thesis
    proof (cases o1)
      case None then show ?thesis using Inr by (simp split: sum.splits)
    next
      case (Some s')
      then have b: "loop_body t s = Inr (Some s')" using Inr by simp
      from b obtain r c where rc: "select_max (pairwise_iou s) = Inr (r, c)"
        "\<not> fl_less (pairwise_iou s ! r ! c) t"
        "s' = s\<lparr>pairwise_iou := set_col c (set_row r (pairwise_iou s)),
               used_rows := insert r (used_rows s),
               used_cols := insert c (used_cols s),
               metrics := (metrics s)\<lparr>true_positive := true_positive (metrics s) + 1\<rparr>\<rparr>"
        by (rule loop_body_Some)
      have rect: "rect M N (pairwise_iou s)" using Suc.prems by (simp add: loop_inv_def)
      have pos: "0 < M \<and> 0 < N"
      proof (rule ccontr)
        assume "\<not> (0 < M \<and> 0 < N)"
        then have "select_max (pairwise_iou s) = Inl ValueError"
          using select_max_empty[OF rect] by auto
        then show False using rc(1) by simp
      qed
      then obtain r' c' where "select_max (pairwise_iou s) = Inr (r', c')" "r' < M" "c' < N"
        using select_max_rect[OF rect] by blast
      then have lt: "r < M" "c < N" using rc(1) by simp_all
      have st: "loop_inv M N m0 tp0 s' \<and> r \<notin> used_rows s \<and> c \<notin> used_cols s"
        by (rule loop_inv_step[OF Suc.prems t rc(1) lt rc(2,3)])
      have tr: "match_trace (Suc n) t s = (r, c) # match_trace n t s'" using b rc(1) by simp
      have ur: "used_rows s' = insert r (used_rows s)" and uc: "used_cols s' = insert c (used_cols s)"
        using rc(3) by simp_all
      from Suc.IH[of s'] st have IH:
        "distinct (map fst (match_trace n t s'))" "fst ` set (match_trace n t s') \<inter> used_rows s' = {}"
        "distinct (map snd (match_trace n t s'))" "snd ` set (match_trace n t s') \<inter> used_cols s' = {}"
        by simp_all
      have "r \<notin> fst ` set (match_trace n t s')" "c \<notin> snd ` set (match_trace n t s')"
        using IH(2,4) ur uc by auto
      then show ?thesis using tr IH st ur uc by auto
    qed
  qed
qed

section \<open>What the loop returns\<close>

lemma match_loop_result:
  assumes "rect M N m" "t \<noteq> NaN" "t \<noteq> NegInf" "0 < M" "0 < N"
  shows "\<exists>n. match_loop t (init_state m c) = Some (Inr (loop_iter n t (init_state m c))) \<and>
            loop_body t (loop_iter n t (init_state m c)) = Inr None \<and>
            loop_inv M N m (true_positive c) (loop_iter n t (init_state m c)) \<and>
            card (used_rows (loop_iter n t (init_state m c))) = n"
proof -
  let ?s = "init_state m c"
  have inv: "loop_inv M N m (true_positive c) ?s" by (rule loop_inv_init[OF assms(1)])
  from loop_iter_terminates[OF assms(2,3,4,5) inv] obtain n where
    n: "loop_body t (loop_iter n t ?s) = Inr None" "loop_inv M N m (true_positive c) (loop_iter n t ?s)"
       "card (used_rows (loop_iter n t ?s)) = card (used_rows ?s) + n" by blast
  have "card (used_rows (loop_iter n t ?s)) = n" using n(3) by (simp add: init_state_def)
  then show ?thesis using n match_loop_iter[OF n(1)] by blast
qed

lemma match_loop_returns:
  assumes ret: "match_loop t (init_state m c) = Some (Inr s)" and rect: "rect M N m"
  shows "0 < M \<and> 0 < N \<and> t \<noteq> NaN \<and> t \<noteq> NegInf \<and> loop_inv M N m (true_positive c) s \<and>
         loop_body t s = Inr None \<and> (\<exists>n. s = loop_iter n t (init_state m c))"
proof -
  have pos: "0 < M \<and> 0 < N"
  proof (rule ccontr)
    assume "\<not> (0 < M \<and> 0 < N)"
    then have "select_max m = Inl ValueError" using select_max_empty[OF rect] by auto
    then have "loop_body t (init_state m c) = Inl ValueError"
      by (simp add: loop_body_def init_state_def)
    then have "match_loop t (init_state m c) = Some (Inl ValueError)"
      by (subst match_loop.simps) simp
    then show False using ret by simp
  qed
  have r0: "rect M N (pairwise_iou (init_state m c))" using rect by (simp add: init_state_def)
  have t: "t \<noteq> NaN \<and> t \<noteq> NegInf"
    using match_loop_never_returns[OF ret, of M N] r0 pos by blast
  from match_loop_result[OF rect _ _ _ _, of t c] t pos obtain n where
    "match_loop t (init_state m c) = Some (Inr (loop_iter n t (init_state m c)))"
    "loop_body t (loop_iter n t (init_state m c)) = Inr None"
    "loop_inv M N m (true_positive c) (loop_iter n t (init_state m c))" by blast
  then show ?thesis using ret pos t by auto
qed


section \<open>One-to-one matching\<close>

text \<open>
  C4, as amended.  For a threshold that is neither \<open>NaN\<close> nor \<open>-inf\<close>: at every point
  of the loop the rows matched so far are pairwise different, and so are the columns; the
  two sets hold exactly the matched indices; and when the loop ends the two sets have the
  same size, the number of true positives the loop has added.  On a matrix with at least
  one row and one column the loop does end.
\<close>

theorem matches_are_one_to_one:
  assumes "rect M N m" "t \<noteq> NaN" "t \<noteq> NegInf"
  shows "(\<forall>n. distinct (map fst (match_trace n t (init_state m c))) \<and>
              distinct (map snd (match_trace n t (init_state m c))) \<and>
              used_rows (loop_iter n t (init_state m c)) = fst ` set (match_trace n t (init_state m c)) \<and>
              used_cols (loop_iter n t (init_state m c)) = snd ` set (match_trace n t (init_state m c))) \<and>
         (\<forall>s. match_loop t (init_state m c) = Some (Inr s) \<longrightarrow>
              card (used_rows s) = card (used_cols s) \<and>
              true_positive (metrics s) = true_positive c + int (card (used_rows s))) \<and>
         (0 < M \<and> 0 < N \<longrightarrow> (\<exists>s. match_loop t (init_state m c) = Some (Inr s)))"
proof (intro conjI allI impI)
  fix n
  have inv: "loop_inv M N m (true_positive c) (init_state m c)" by (rule loop_inv_init[OF assms(1)])
  show "distinct (map fst (match_trace n t (init_state m c)))"
    and "distinct (map snd (match_trace n t (init_state m c)))"
    using trace_distinct[OF assms(2,3) inv, of n] by simp_all
  show "used_rows (loop_iter n t (init_state m c)) = fst ` set (match_trace n t (init_state m c))"
    and "used_cols (loop_iter n t (init_state m c)) = snd ` set (match_trace n t (init_state m c))"
    using used_loop_iter[of n t "init_state m c"] by (simp_all add: init_state_def)
next
  fix s assume "match_loop t (init_state m c) = Some (Inr s)"
  then have "loop_inv M N m (true_positive c) s" using match_loop_returns[OF _ assms(1)] by blast
  then show "card (used_rows s) = card (used_cols s)"
    and "true_positive (metrics s) = true_positive c + int (card (used_rows s))"
    by (simp_all add: loop_inv_def)
next
  assume "0 < M \<and> 0 < N"
  then show "\<exists>s. match_loop t (init_state m c) = Some (Inr s)"
    using match_loop_result[OF assms, of c] by blast
qed

theorem matches_are_one_to_one_witness:
  "rect 2 2 [[Fin (1/2), Fin 0], [Fin 0, Fin 1]] \<and> Fin (1/2) \<noteq> NaN \<and> Fin (1/2) \<noteq> NegInf \<and>
   distinct (map fst (match_trace 2 (Fin (1/2)) (init_state [[Fin (1/2), Fin 0], [Fin 0, Fin 1]] zero_counters))) \<and>
   (\<exists>s. match_loop (Fin (1/2)) (init_state [[Fin (1/2), Fin 0], [Fin 0, Fin 1]] zero_counters) = Some (Inr s))"
proof -
  have r: "rect 2 2 [[Fin (1/2), Fin 0], [Fin 0, Fin 1]]" by (simp add: rect_def)
  show ?thesis
    using r matches_are_one_to_one[OF r, of "Fin (1/2)" zero_counters] by simp
qed

text \<open>
  C4, as stated, fails: with threshold \<open>-inf\<close> on the \<open>1\<times>1\<close> matrix \<open>[[1.0]]\<close> the second
  pass matches row 0 and column 0 again; after two passes two true positives are counted
  for one used row.
\<close>

theorem row_matched_twice:
  "match_trace 2 NegInf (init_state [[Fin 1]] zero_counters) = [(0, 0), (0, 0)] \<and>
   \<not> distinct (map fst (match_trace 2 NegInf (init_state [[Fin 1]] zero_counters))) \<and>
   true_positive (metrics (loop_iter 2 NegInf (init_state [[Fin 1]] zero_counters))) = 2 \<and>
   used_rows (loop_iter 2 NegInf (init_state [[Fin 1]] zero_counters)) = {0}"
  by code_simp

section \<open>The maximum that \<open>np.argmax\<close> finds\<close>

lemma fl_le_trans: "fl_le x y \<Longrightarrow> fl_le y z \<Longrightarrow> fl_le x z"
  by (cases x; cases y; cases z) simp_all

lemma fl_less_le_trans: "fl_less x y \<Longrightarrow> fl_le y z \<Longrightarrow> fl_less x z"
  by (cases x; cases y; cases z) simp_all

lemma fl_le_less_trans: "fl_le x y \<Longrightarrow> fl_less y z \<Longrightarrow> fl_less x z"
  by (cases x; cases y; cases z) simp_all

lemma fl_not_le: "x \<noteq> NaN \<Longrightarrow> y \<noteq> NaN \<Longrightarrow> \<not> fl_le x y \<Longrightarrow> fl_less y x"
  by (cases x; cases y) simp_all

lemma fl_le_refl: "x \<noteq> NaN \<Longrightarrow> fl_le x x"
  by (cases x) simp_all

lemma fl_less_imp_le: "fl_less x y \<Longrightarrow> fl_le x y"
  by (cases x; cases y) simp_all

lemma fl_less_irrefl: "\<not> fl_less x x"
  by (cases x) simp_all

lemma argmax_from_spec:
  assumes "NaN \<notin> set (pre @ xs)" "best < length pre" "pre ! best = mp"
    "\<forall>j<length pre. fl_le (pre ! j) mp" "\<forall>j<best. fl_less (pre ! j) mp"
  shows "argmax_from mp best (length pre) xs < length (pre @ xs) \<and>
     (\<forall>j<length (pre @ xs). fl_le ((pre @ xs) ! j) ((pre @ xs) ! argmax_from mp best (length pre) xs)) \<and>
     (\<forall>j<argmax_from mp best (length pre) xs.
          fl_less ((pre @ xs) ! j) ((pre @ xs) ! argmax_from mp best (length pre) xs))"
  using assms
proof (induction xs arbitrary: pre mp best)
  case Nil
  then show ?case by simp
next
  case (Cons x xs)
  have xn: "x \<noteq> NaN" and mn: "mp \<noteq> NaN" using Cons.prems(1,2,3) by (auto simp: nth_mem in_set_conv_nth)
  have app: "(pre @ [x]) @ xs = pre @ x # xs" by simp
  show ?case
  proof (cases "fl_le x mp")
    case True
    have "argmax_from mp best (length (pre @ [x])) xs < length ((pre @ [x]) @ xs) \<and>
     (\<forall>j<length ((pre @ [x]) @ xs). fl_le (((pre @ [x]) @ xs) ! j) (((pre @ [x]) @ xs) ! argmax_from mp best (length (pre @ [x])) xs)) \<and>
     (\<forall>j<argmax_from mp best (length (pre @ [x])) xs.
          fl_less (((pre @ [x]) @ xs) ! j) (((pre @ [x]) @ xs) ! argmax_from mp best (length (pre @ [x])) xs))"
    proof (rule Cons.IH)
      show "NaN \<notin> set ((pre @ [x]) @ xs)" using Cons.prems(1) by simp
      show "best < length (pre @ [x])" using Cons.prems(2) by simp
      show "(pre @ [x]) ! best = mp" using Cons.prems(2,3) by (simp add: nth_append)
      show "\<forall>j<length (pre @ [x]). fl_le ((pre @ [x]) ! j) mp"
        using Cons.prems(4) True by (auto simp: nth_append less_Suc_eq)
      show "\<forall>j<best. fl_less ((pre @ [x]) ! j) mp"
        using Cons.prems(2,5) by (auto simp: nth_append)
    qed
    then show ?thesis using True unfolding app by simp
  next
    case False
    then have lt: "fl_less mp x" using fl_not_le[OF xn mn] by simp
    have "argmax_from x (length pre) (length (pre @ [x])) xs < length ((pre @ [x]) @ xs) \<and>
     (\<forall>j<length ((pre @ [x]) @ xs). fl_le (((pre @ [x]) @ xs) ! j) (((pre @ [x]) @ xs) ! argmax_from x (length pre) (length (pre @ [x])) xs)) \<and>
     (\<forall>j<argmax_from x (length pre) (length (pre @ [x])) xs.
          fl_less (((pre @ [x]) @ xs) ! j) (((pre @ [x]) @ xs) ! argmax_from x (length pre) (length (pre @ [x])) xs))"
    proof (rule Cons.IH)
      show "NaN \<notin> set ((pre @ [x]) @ xs)" using Cons.prems(1) by simp
      show "length pre < length (pre @ [x])" by simp
      show "(pre @ [x]) ! length pre = x" by simp
      show "\<forall>j<length (pre @ [x]). fl_le ((pre @ [x]) ! j) x"
        using Cons.prems(4) lt fl_le_refl[OF xn]
        by (auto simp: nth_append less_Suc_eq intro: fl_less_imp_le fl_le_less_trans)
      show "\<forall>j<length pre. fl_less ((pre @ [x]) ! j) x"
        using Cons.prems(4) lt by (auto simp: nth_append intro: fl_le_less_trans)
    qed
    then show ?thesis using False xn unfolding app by simp
  qed
qed

lemma argmax_spec:
  assumes "NaN \<notin> set xs" "argmax xs = Inr k"
  shows "k < length xs \<and> (\<forall>j<length xs. fl_le (xs ! j) (xs ! k)) \<and> (\<forall>j<k. fl_less (xs ! j) (xs ! k))"
proof (cases xs)
  case Nil then show ?thesis using assms(2) by (simp add: argmax_def)
next
  case (Cons x rest)
  have xn: "x \<noteq> NaN" using assms(1) Cons by auto
  have k: "k = argmax_from x 0 (length [x]) rest" using assms(2) Cons xn by (simp add: argmax_def)
  have "argmax_from x 0 (length [x]) rest < length ([x] @ rest) \<and>
     (\<forall>j<length ([x] @ rest). fl_le (([x] @ rest) ! j) (([x] @ rest) ! argmax_from x 0 (length [x]) rest)) \<and>
     (\<forall>j<argmax_from x 0 (length [x]) rest.
          fl_less (([x] @ rest) ! j) (([x] @ rest) ! argmax_from x 0 (length [x]) rest))"
    by (rule argmax_from_spec) (use assms(1) Cons xn fl_le_refl in auto)
  then show ?thesis using k Cons by simp
qed

section \<open>The first maximum in row-major order\<close>

lemma concat_no_nan: "\<forall>row\<in>set m. NaN \<notin> set row \<Longrightarrow> NaN \<notin> set (concat m)"
  by auto

lemma select_max_spec:
  assumes rect: "rect M N m" and pos: "0 < M" "0 < N" and nn: "\<forall>row\<in>set m. NaN \<notin> set row"
  shows "\<exists>r c. select_max m = Inr (r, c) \<and> r < M \<and> c < N \<and>
           (\<forall>i<M. \<forall>j<N. fl_le (m ! i ! j) (m ! r ! c)) \<and>
           (\<forall>i<M. \<forall>j<N. i < r \<or> (i = r \<and> j < c) \<longrightarrow> fl_less (m ! i ! j) (m ! r ! c))"
proof -
  from select_max_rect[OF rect pos] obtain k r c where
    k: "argmax (concat m) = Inr k" "k < M * N" "select_max m = Inr (r, c)"
       "r = k div N" "c = k mod N" "r < M" "c < N" "concat m ! k = m ! r ! c" by blast
  have len: "length (concat m) = M * N" by (rule length_concat_rect[OF rect])
  have sp: "(\<forall>j<length (concat m). fl_le (concat m ! j) (concat m ! k)) \<and>
            (\<forall>j<k. fl_less (concat m ! j) (concat m ! k))"
    using argmax_spec[OF concat_no_nan[OF nn] k(1)] by simp
  have kk: "k = r * N + c" using k(4,5) by simp
  have flat: "\<And>i j. i < M \<Longrightarrow> j < N \<Longrightarrow> i * N + j < M * N"
  proof -
    fix i j assume ij: "i < M" "j < N"
    have "i * N + j < i * N + N" using ij(2) by simp
    also have "\<dots> = Suc i * N" by simp
    also have "\<dots> \<le> M * N" using ij(1) by (intro mult_le_mono1) simp
    finally show "i * N + j < M * N" .
  qed
  have le: "\<forall>i<M. \<forall>j<N. fl_le (m ! i ! j) (m ! r ! c)"
  proof (intro allI impI)
    fix i j assume ij: "i < M" "j < N"
    have "fl_le (concat m ! (i * N + j)) (concat m ! k)" using sp flat[OF ij] len by simp
    then show "fl_le (m ! i ! j) (m ! r ! c)"
      using nth_concat_rect[OF rect ij] k(8) by simp
  qed
  have less: "\<forall>i<M. \<forall>j<N. i < r \<or> (i = r \<and> j < c) \<longrightarrow> fl_less (m ! i ! j) (m ! r ! c)"
  proof (intro allI impI)
    fix i j assume ij: "i < M" "j < N" and before: "i < r \<or> (i = r \<and> j < c)"
    have "i * N + j < k"
    proof (cases "i < r")
      case True
      have "i * N + j < i * N + N" using ij(2) by simp
      also have "\<dots> = Suc i * N" by simp
      also have "\<dots> \<le> r * N" using True by (intro mult_le_mono1) simp
      finally show ?thesis using kk by simp
    next
      case False
      then show ?thesis using before kk by simp
    qed
    then have "fl_less (concat m ! (i * N + j)) (concat m ! k)" using sp by simp
    then show "fl_less (m ! i ! j) (m ! r ! c)"
      using nth_concat_rect[OF rect ij] k(8) by simp
  qed
  show ?thesis using k(3,6,7) le less by blast
qed

lemma match_trace_matrix:
  "pairwise_iou s = pairwise_iou s' \<Longrightarrow> match_trace n t s = match_trace n t s'"
proof (induction n arbitrary: s s')
  case 0 show ?case by simp
next
  case (Suc n)
  show ?case
  proof (cases "select_max (pairwise_iou s)")
    case (Inl e)
    then show ?thesis using Suc.prems by simp
  next
    case (Inr rc)
    obtain r c where rc: "rc = (r, c)" by (cases rc)
    show ?thesis
    proof (cases "fl_less (pairwise_iou s ! r ! c) t")
      case True
      then have "loop_body t s = Inr None" "loop_body t s' = Inr None"
        using Inr rc Suc.prems by (simp_all add: loop_body_def)
      then show ?thesis using Inr Suc.prems by simp
    next
      case False
      let ?u = "\<lambda>s. s\<lparr>pairwise_iou := set_col c (set_row r (pairwise_iou s)),
               used_rows := insert r (used_rows s),
               used_cols := insert c (used_cols s),
               metrics := (metrics s)\<lparr>true_positive := true_positive (metrics s) + 1\<rparr>\<rparr>"
      have b: "loop_body t s = Inr (Some (?u s))" "loop_body t s' = Inr (Some (?u s'))"
        using Inr rc Suc.prems False by (simp_all add: loop_body_def)
      have "match_trace n t (?u s) = match_trace n t (?u s')"
        by (rule Suc.IH) (simp add: Suc.prems)
      then show ?thesis using b Inr rc Suc.prems by simp
    qed
  qed
qed

text \<open>
  C8.  On an \<open>M\<times>N\<close> matrix without \<open>NaN\<close>, line 82 selects a position \<open>(r, c)\<close> that
  holds the maximum, and every position that holds the same value comes at or after
  \<open>(r, c)\<close> in row-major order: \<open>(r, c)\<close> is the first maximum.  A pass of the loop matches
  exactly this pair (or stops, when the value is below the threshold), and the sequence of
  matches is determined by the matrix and the threshold alone.
\<close>

theorem tie_break_row_major:
  assumes "rect M N m" "0 < M" "0 < N" "\<forall>row\<in>set m. NaN \<notin> set row"
  shows "\<exists>r c. select_max m = Inr (r, c) \<and> r < M \<and> c < N \<and>
           (\<forall>i<M. \<forall>j<N. fl_le (m ! i ! j) (m ! r ! c)) \<and>
           (\<forall>i<M. \<forall>j<N. m ! i ! j = m ! r ! c \<longrightarrow> r < i \<or> (r = i \<and> c \<le> j)) \<and>
           (\<forall>t s. pairwise_iou s = m \<longrightarrow>
               match_trace 1 t s = (if fl_less (m ! r ! c) t then [] else [(r, c)])) \<and>
           (\<forall>t n s s'. pairwise_iou s = m \<and> pairwise_iou s' = m \<longrightarrow>
               match_trace n t s = match_trace n t s')"
proof -
  from select_max_spec[OF assms] obtain r c where
    rc: "select_max m = Inr (r, c)" "r < M" "c < N"
        "\<forall>i<M. \<forall>j<N. fl_le (m ! i ! j) (m ! r ! c)"
        "\<forall>i<M. \<forall>j<N. i < r \<or> (i = r \<and> j < c) \<longrightarrow> fl_less (m ! i ! j) (m ! r ! c)" by blast
  have ties: "\<forall>i<M. \<forall>j<N. m ! i ! j = m ! r ! c \<longrightarrow> r < i \<or> (r = i \<and> c \<le> j)"
  proof (intro allI impI)
    fix i j assume ij: "i < M" "j < N" and eq: "m ! i ! j = m ! r ! c"
    have "\<not> (i < r \<or> (i = r \<and> j < c))"
    proof
      assume "i < r \<or> (i = r \<and> j < c)"
      then have "fl_less (m ! i ! j) (m ! r ! c)" using rc(5) ij by blast
      then show False using eq fl_less_irrefl by simp
    qed
    then show "r < i \<or> (r = i \<and> c \<le> j)" by auto
  qed
  have first: "\<forall>t s. pairwise_iou s = m \<longrightarrow>
               match_trace 1 t s = (if fl_less (m ! r ! c) t then [] else [(r, c)])"
    using rc(1) by (auto simp: loop_body_def)
  have det: "\<forall>t n s s'. pairwise_iou s = m \<and> pairwise_iou s' = m \<longrightarrow>
               match_trace n t s = match_trace n t s'"
    using match_trace_matrix by auto
  show ?thesis using rc(1,2,3,4) ties first det by blast
qed

theorem tie_break_row_major_witness:
  "rect 2 2 [[Fin (1/2), Fin 1], [Fin 1, Fin 1]] \<and> (0::nat) < 2 \<and>
   NaN \<notin> set (concat [[Fin (1/2), Fin 1], [Fin 1, Fin 1]]) \<and>
   select_max [[Fin (1/2), Fin 1], [Fin 1, Fin 1]] = Inr (0, 1) \<and>
   [[Fin (1/2), Fin 1], [Fin 1, Fin 1]] ! 1 ! 0 = [[Fin (1/2), Fin 1], [Fin 1, Fin 1]] ! 0 ! 1 \<and>
   fl_le ([[Fin (1/2), Fin 1], [Fin 1, Fin 1]] ! 1 ! 0) ([[Fin (1/2), Fin 1], [Fin 1, Fin 1]] ! 0 ! 1) \<and>
   match_trace 1 (Fin (1/2)) (init_state [[Fin (1/2), Fin 1], [Fin 1, Fin 1]] zero_counters) = [(0, 1)]"
proof -
  let ?m = "[[Fin (1/2), Fin 1], [Fin 1, Fin 1]]"
  have r: "rect 2 2 ?m" by (simp add: rect_def)
  have n: "\<forall>row\<in>set ?m. NaN \<notin> set row" by simp
  have s: "select_max ?m = Inr (0, 1)" by code_simp
  from tie_break_row_major[OF r _ _ n] obtain r c where rc:
    "select_max ?m = Inr (r, c)"
    "\<forall>i<2. \<forall>j<2. fl_le (?m ! i ! j) (?m ! r ! c)"
    "\<forall>t s. pairwise_iou s = ?m \<longrightarrow>
               match_trace 1 t s = (if fl_less (?m ! r ! c) t then [] else [(r, c)])"
    by auto
  have rc01: "r = 0" "c = 1" using rc(1) s by simp_all
  have le: "fl_le (?m ! 1 ! 0) (?m ! 0 ! 1)" using rc(2) rc01 by simp
  have "pairwise_iou (init_state ?m zero_counters) = ?m" by (simp add: init_state_def)
  then have "match_trace 1 (Fin (1/2)) (init_state ?m zero_counters)
      = (if fl_less (?m ! r ! c) (Fin (1/2)) then [] else [(r, c)])"
    using rc(3) by blast
  then have tr: "match_trace 1 (Fin (1/2)) (init_state ?m zero_counters) = [(0, 1)]"
    using rc01 by simp
  show ?thesis using r s le tr by simp
qed

section \<open>Threshold 0\<close>

lemma full_row_or_col:
  assumes inv: "loop_inv M N m0 tp0 s" and pos: "0 < M" "0 < N"
    and nonneg: "\<forall>i<M. \<forall>j<N. \<exists>v. m0 ! i ! j = Fin v \<and> 0 \<le> v"
    and brk: "loop_body (Fin 0) s = Inr None"
  shows "card (used_rows s) = min M N"
proof -
  let ?m = "pairwise_iou s"
  have rect: "rect M N ?m" using inv by (simp add: loop_inv_def)
  have ent: "\<forall>i<M. \<forall>j<N. ?m ! i ! j =
          (if i \<in> used_rows s \<or> j \<in> used_cols s then NegInf else m0 ! i ! j)"
    using inv by (simp add: loop_inv_def)
  have nn: "\<forall>row\<in>set ?m. NaN \<notin> set row"
  proof (intro ballI notI)
    fix row assume row: "row \<in> set ?m" and nan: "NaN \<in> set row"
    from row obtain i where i: "i < length ?m" "?m ! i = row" by (auto simp: in_set_conv_nth)
    from nan obtain j where j: "j < length row" "row ! j = NaN" by (auto simp: in_set_conv_nth)
    have ij: "i < M" "j < N" using i j row rect by (auto simp: rect_def)
    have e: "?m ! i ! j = (if i \<in> used_rows s \<or> j \<in> used_cols s then NegInf else m0 ! i ! j)"
      using ent ij by blast
    obtain v where v: "m0 ! i ! j = Fin v" using nonneg ij by blast
    have "?m ! i ! j \<noteq> NaN" using e v by (simp split: if_splits)
    then show False using i j by auto
  qed
  from select_max_spec[OF rect pos nn] obtain r c where
    rc: "select_max ?m = Inr (r, c)" "r < M" "c < N"
        "\<forall>i<M. \<forall>j<N. fl_le (?m ! i ! j) (?m ! r ! c)" by blast
  have lt: "fl_less (?m ! r ! c) (Fin 0)"
    using brk rc(1) by (auto simp: loop_body_def split: if_splits)
  have all_used: "\<And>i j. i < M \<Longrightarrow> j < N \<Longrightarrow> i \<in> used_rows s \<or> j \<in> used_cols s"
  proof (rule ccontr)
    fix i j assume ij: "i < M" "j < N" and "\<not> (i \<in> used_rows s \<or> j \<in> used_cols s)"
    then have "?m ! i ! j = m0 ! i ! j" using ent by simp
    then obtain v where v: "?m ! i ! j = Fin v" "0 \<le> v" using nonneg ij by auto
    have "fl_le (?m ! i ! j) (?m ! r ! c)" using rc(4) ij by blast
    then have "fl_le (Fin v) (?m ! r ! c)" by (simp only: v(1))
    then have "fl_less (Fin v) (Fin 0)" using lt fl_le_less_trans by blast
    then show False using v(2) by simp
  qed
  have sub: "used_rows s \<subseteq> {..<M}" "used_cols s \<subseteq> {..<N}" using inv by (simp_all add: loop_inv_def)
  have eq: "card (used_rows s) = card (used_cols s)" using inv by (simp add: loop_inv_def)
  have le: "card (used_rows s) \<le> min M N" by (rule loop_inv_card_le[OF inv])
  show ?thesis
  proof (cases "used_rows s = {..<M}")
    case True
    then have "card (used_rows s) = M" by simp
    then show ?thesis using le by simp
  next
    case False
    then obtain i where i: "i < M" "i \<notin> used_rows s" using sub by auto
    then have "\<forall>j<N. j \<in> used_cols s" using all_used by blast
    then have "used_cols s = {..<N}" using sub by auto
    then have "card (used_cols s) = N" by simp
    then show ?thesis using le eq by simp
  qed
qed


section \<open>The overlap matrix is well defined\<close>

lemma eps_pos: "0 < eps"
  by (simp add: eps_def)

lemma union_area_ge_eps: "eps \<le> union_area b1 b2"
  by (simp add: union_area_def)

lemma union_area_pos: "0 < union_area b1 b2"
  using eps_pos union_area_ge_eps[of b1 b2] by linarith

lemma intersection_area_nonneg: "0 \<le> intersection_area b1 b2"
  by (simp add: intersection_area_def Let_def)

lemma round_half_even_nonneg: "0 \<le> r \<Longrightarrow> 0 \<le> round_half_even r"
proof -
  assume "0 \<le> r"
  then have "0 \<le> \<lfloor>r\<rfloor>" by simp
  then show ?thesis by (simp add: round_half_even_def Let_def)
qed

lemma round_half_even_le:
  assumes "r \<le> of_int K"
  shows "round_half_even r \<le> K"
proof -
  have f: "\<lfloor>r\<rfloor> \<le> K" using assms by (simp add: floor_le_iff)
  show ?thesis
  proof (cases "r = of_int K")
    case True
    then show ?thesis by (simp add: round_half_even_def)
  next
    case False
    then have "r < of_int K" using assms by simp
    then have "\<lfloor>r\<rfloor> < K" by (simp add: floor_less_iff)
    then show ?thesis by (simp add: round_half_even_def Let_def)
  qed
qed

lemma pow2_pos: "0 < pow2 e"
  by (simp add: pow2_def)

lemma round_float_nonneg:
  assumes "0 \<le> x"
  shows "round_float p emin emax x = PosInf \<or> (\<exists>v. round_float p emin emax x = Fin v \<and> 0 \<le> v)"
proof (cases "x = 0")
  case True
  then show ?thesis by (simp add: round_float_def)
next
  case False
  then have pos: "0 < x" using assms by simp
  define q where "q = pow2 (max (ilog2 \<bar>x\<bar>) emin - int p + 1)"
  define y where "y = (of_int (round_half_even (\<bar>x\<bar> / q)) :: rat) * q"
  have q: "0 < q" unfolding q_def by (rule pow2_pos)
  have "0 \<le> round_half_even (\<bar>x\<bar> / q)" using q by (intro round_half_even_nonneg) simp
  then have y: "0 \<le> y" unfolding y_def using q by simp
  have "round_float p emin emax x = (if pow2 (emax + 1) \<le> y then PosInf else Fin y)"
    using pos False unfolding round_float_def Let_def y_def q_def by simp
  then show ?thesis using y by auto
qed

lemma ilog2_le_0:
  assumes "0 < x" "x \<le> 1"
  shows "ilog2 x \<le> 0"
proof -
  obtain a b where ab: "quotient_of x = (a, b)" by (cases "quotient_of x")
  have b: "0 < b" using ab by (rule quotient_of_denom_pos)
  have x: "x = of_int a / of_int b" using ab by (rule quotient_of_div)
  have "of_int a \<le> (of_int b :: rat)" using assms(2) b unfolding x by (simp add: divide_le_eq)
  then have "a \<le> b" by simp
  then have "nat a \<le> nat b" by simp
  then have "bitlen a \<le> bitlen b" unfolding bitlen_def by (simp add: floorlog_mono)
  then show ?thesis unfolding ilog2_def ab by (simp add: Let_def)
qed

lemma round_float_unit:
  assumes "0 \<le> x" "x \<le> 1" "0 < p" "emin \<le> 0" "0 \<le> emax"
  shows "\<exists>v. round_float p emin emax x = Fin v \<and> 0 \<le> v \<and> v \<le> 1"
proof (cases "x = 0")
  case True
  then show ?thesis by (simp add: round_float_def)
next
  case False
  then have pos: "0 < x" using assms(1) by simp
  define e where "e = max (ilog2 \<bar>x\<bar>) emin"
  define q where "q = pow2 (e - int p + 1)"
  define y where "y = (of_int (round_half_even (\<bar>x\<bar> / q)) :: rat) * q"
  have "ilog2 \<bar>x\<bar> \<le> 0" using ilog2_le_0[of x] pos assms(2) by simp
  then have e: "e \<le> 0" unfolding e_def using assms(4) by simp
  then have neg: "e - int p + 1 \<le> 0" using assms(3) by simp
  define k where "k = nat (- (e - int p + 1))"
  have qk: "q = 1 / 2 ^ k"
  proof (cases "e - int p + 1 = 0")
    case True
    then show ?thesis unfolding q_def k_def pow2_def by simp
  next
    case False
    then have "\<not> 0 \<le> e - int p + 1" using neg by simp
    then show ?thesis unfolding q_def k_def pow2_def by simp
  qed
  have q: "0 < q" unfolding q_def by (rule pow2_pos)
  have "\<bar>x\<bar> / q = x * 2 ^ k" using pos by (simp add: qk)
  also have "\<dots> \<le> 1 * 2 ^ k" using assms(2) by (intro mult_right_mono) simp_all
  also have "\<dots> = of_int (2 ^ k)" by simp
  finally have "round_half_even (\<bar>x\<bar> / q) \<le> 2 ^ k" by (rule round_half_even_le)
  then have "(of_int (round_half_even (\<bar>x\<bar> / q)) :: rat) \<le> of_int (2 ^ k)"
    by (simp only: of_int_le_iff)
  then have "y \<le> of_int (2 ^ k) * q" unfolding y_def using q by (intro mult_right_mono) simp_all
  then have y1: "y \<le> 1" by (simp add: qk)
  have "0 \<le> round_half_even (\<bar>x\<bar> / q)" using q by (intro round_half_even_nonneg) simp
  then have y0: "0 \<le> y" unfolding y_def using q by simp
  have "(1 :: rat) < pow2 (emax + 1)" using assms(5) by (simp add: pow2_def) 
  then have no: "\<not> pow2 (emax + 1) \<le> y" using y1 by simp
  have "round_float p emin emax x = Fin y"
    using pos False no unfolding round_float_def Let_def y_def q_def e_def by simp
  then show ?thesis using y0 y1 by simp
qed

lemma iou_unfold:
  "iou b1 b2 =
     astype_float32 (np_clip (as_float64 (Fin (intersection_area b1 b2 / union_area b1 b2))) 0 1)"
  using union_area_pos[of b1 b2] by (simp add: iou_def np_divide_def)

lemma clip_round_unit:
  assumes "0 \<le> x"
  shows "\<exists>v. astype_float32 (np_clip (as_float64 (Fin x)) 0 1) = Fin v \<and> 0 \<le> v \<and> v \<le> 1"
proof -
  have "\<exists>c. np_clip (as_float64 (Fin x)) 0 1 = Fin c \<and> 0 \<le> c \<and> c \<le> 1"
    using round_float_nonneg[OF assms, of 53 "- 1022" 1023] by auto
  then obtain c where c: "np_clip (as_float64 (Fin x)) 0 1 = Fin c" "0 \<le> c" "c \<le> 1" by blast
  have "\<exists>v. round_float 24 (- 126) 127 c = Fin v \<and> 0 \<le> v \<and> v \<le> 1"
    by (rule round_float_unit[OF c(2,3)]) simp_all
  then show ?thesis unfolding c(1) by simp
qed

lemma iou_range: "\<exists>v. iou b1 b2 = Fin v \<and> 0 \<le> v \<and> v \<le> 1"
proof -
  have "0 \<le> intersection_area b1 b2 / union_area b1 b2"
    using intersection_area_nonneg[of b1 b2] union_area_pos[of b1 b2] by simp
  then show ?thesis unfolding iou_unfold by (rule clip_round_unit)
qed

lemma clip_round_0: "astype_float32 (np_clip (as_float64 (Fin 0)) 0 1) = Fin 0"
  by (simp add: round_float_def)

lemma clip_round_1: "astype_float32 (np_clip (as_float64 (Fin 1)) 0 1) = Fin 1"
  by code_simp

lemma rect_compute_iou: "rect (length boxes1) (length boxes2) (compute_iou boxes1 boxes2)"
  by (simp add: rect_def compute_iou_def)

lemma nth_compute_iou:
  "i < length boxes1 \<Longrightarrow> j < length boxes2 \<Longrightarrow>
     compute_iou boxes1 boxes2 ! i ! j = iou (boxes1 ! i) (boxes2 ! j)"
  by (simp add: compute_iou_def)

text \<open>
  C7.  For a group with at least one ground-truth box and at least one prediction, with
  threshold 0 the loop returns having added exactly \<open>min M N\<close> true positives, whatever
  the boxes are: every entry of the matrix is at least 0, so the loop stops only when a
  whole side is used up.  The witness matches two disjoint boxes, whose IoU is 0.
\<close>

theorem threshold_zero_matches_min:
  assumes "0 < length true_boxes" "0 < length pred_boxes"
  shows "\<exists>s. match_group (Fin 0) true_boxes pred_boxes c = Some (Inr s) \<and>
           true_positive (metrics s) =
             true_positive c + int (min (length true_boxes) (length pred_boxes)) \<and>
           card (used_rows s) = min (length true_boxes) (length pred_boxes) \<and>
           card (used_cols s) = min (length true_boxes) (length pred_boxes)"
proof -
  let ?M = "length true_boxes" and ?N = "length pred_boxes"
  let ?m = "compute_iou true_boxes pred_boxes"
  have rect: "rect ?M ?N ?m" by (rule rect_compute_iou)
  have nonneg: "\<forall>i<?M. \<forall>j<?N. \<exists>v. ?m ! i ! j = Fin v \<and> 0 \<le> v"
    using iou_range by (auto simp: nth_compute_iou)
  from match_loop_result[OF rect _ _ assms, of "Fin 0" c] obtain n where
    n: "match_loop (Fin 0) (init_state ?m c) = Some (Inr (loop_iter n (Fin 0) (init_state ?m c)))"
       "loop_body (Fin 0) (loop_iter n (Fin 0) (init_state ?m c)) = Inr None"
       "loop_inv ?M ?N ?m (true_positive c) (loop_iter n (Fin 0) (init_state ?m c))" by auto
  let ?s = "loop_iter n (Fin 0) (init_state ?m c)"
  have card: "card (used_rows ?s) = min ?M ?N"
    by (rule full_row_or_col[OF n(3) assms nonneg n(2)])
  have "true_positive (metrics ?s) = true_positive c + int (card (used_rows ?s))"
    and "card (used_rows ?s) = card (used_cols ?s)"
    using n(3) by (simp_all add: loop_inv_def)
  then show ?thesis using n(1) card by (auto simp: match_group_def)
qed

theorem threshold_zero_matches_min_witness:
  "(0::nat) < length [\<lparr>box_left = 0, box_top = 0, box_right = 10, box_bottom = 10\<rparr>] \<and>
   (0::nat) < length [\<lparr>box_left = 50, box_top = 50, box_right = 60, box_bottom = 60\<rparr>] \<and>
   iou \<lparr>box_left = 0, box_top = 0, box_right = 10, box_bottom = 10\<rparr>
       \<lparr>box_left = 50, box_top = 50, box_right = 60, box_bottom = 60\<rparr> = Fin 0 \<and>
   (\<exists>s. match_group (Fin 0) [\<lparr>box_left = 0, box_top = 0, box_right = 10, box_bottom = 10\<rparr>]
            [\<lparr>box_left = 50, box_top = 50, box_right = 60, box_bottom = 60\<rparr>] zero_counters = Some (Inr s) \<and>
        true_positive (metrics s) = 1)"
proof -
  have i: "iou \<lparr>box_left = 0, box_top = 0, box_right = 10, box_bottom = 10\<rparr>
       \<lparr>box_left = 50, box_top = 50, box_right = 60, box_bottom = 60\<rparr> = Fin 0"
    by code_simp
  show ?thesis
    using i threshold_zero_matches_min[of "[\<lparr>box_left = 0, box_top = 0, box_right = 10, box_bottom = 10\<rparr>]"
        "[\<lparr>box_left = 50, box_top = 50, box_right = 60, box_bottom = 60\<rparr>]" zero_counters]
    by (auto simp: zero_counters_def)
qed

section \<open>The counters of one group\<close>

lemma card_unused:
  assumes "U \<subseteq> {..<n}"
  shows "int (card ({0..<n} - U)) = int n - int (card U)"
proof -
  have f: "finite U" using assms by (rule finite_subset) simp
  have "U \<subseteq> {0..<n}" using assms by auto
  then have "card ({0..<n} - U) = card {0..<n} - card U" using f by (simp add: card_Diff_subset)
  moreover have "card U \<le> n" using assms by (metis card_lessThan card_mono finite_lessThan)
  ultimately show ?thesis by simp
qed

lemma process_group_counts:
  "(t \<noteq> NaN \<and> t \<noteq> NegInf \<and> 0 < length true_boxes \<longrightarrow>
      (\<exists>c'. process_group t true_boxes pred_boxes c = Some (Inr c'))) \<and>
   (\<forall>c'. process_group t true_boxes pred_boxes c = Some (Inr c') \<longrightarrow>
      total_true c' = total_true c + int (length true_boxes) \<and>
      total_pred c' = total_pred c + int (length pred_boxes) \<and>
      (\<exists>matched_rows matched_cols.
          (if length pred_boxes = 0 then matched_rows = {} \<and> matched_cols = {}
           else \<exists>s. match_group t true_boxes pred_boxes
                       (c\<lparr>total_true := total_true c + int (length true_boxes),
                          total_pred := total_pred c + int (length pred_boxes)\<rparr>) = Some (Inr s) \<and>
                    matched_rows = used_rows s \<and> matched_cols = used_cols s) \<and>
          int (card matched_rows) + (false_negative c' - false_negative c) = int (length true_boxes) \<and>
          int (card matched_cols) + (false_positive c' - false_positive c) = int (length pred_boxes)))"
proof (intro conjI allI impI)
  let ?M = "length true_boxes" and ?N = "length pred_boxes"
  let ?c1 = "c\<lparr>total_true := total_true c + int ?M, total_pred := total_pred c + int ?N\<rparr>"
  let ?m = "compute_iou true_boxes pred_boxes"
  have rect: "rect ?M ?N ?m" by (rule rect_compute_iou)
  {
    assume a: "t \<noteq> NaN \<and> t \<noteq> NegInf \<and> 0 < ?M"
    show "\<exists>c'. process_group t true_boxes pred_boxes c = Some (Inr c')"
    proof (cases "?N = 0")
      case True
      then show ?thesis using a by (simp add: process_group_def)
    next
      case False
      then have "\<exists>s. match_group t true_boxes pred_boxes ?c1 = Some (Inr s)"
        using match_loop_result[OF rect, of t ?c1] a by (auto simp: match_group_def)
      then show ?thesis using False by (auto simp: process_group_def Let_def)
    qed
  }
  fix c' assume ret: "process_group t true_boxes pred_boxes c = Some (Inr c')"
  have main: "total_true c' = total_true c + int ?M \<and> total_pred c' = total_pred c + int ?N \<and>
      (\<exists>matched_rows matched_cols.
          (if ?N = 0 then matched_rows = {} \<and> matched_cols = {}
           else \<exists>s. match_group t true_boxes pred_boxes ?c1 = Some (Inr s) \<and>
                    matched_rows = used_rows s \<and> matched_cols = used_cols s) \<and>
          int (card matched_rows) + (false_negative c' - false_negative c) = int ?M \<and>
          int (card matched_cols) + (false_positive c' - false_positive c) = int ?N)"
  proof (cases "0 < ?M \<and> ?N = 0")
    case True
    then have "c' = ?c1\<lparr>false_negative := false_negative ?c1 + int ?M\<rparr>"
      using ret by (simp add: process_group_def)
    then show ?thesis using True by simp
  next
    case False
    then obtain s where s: "match_group t true_boxes pred_boxes ?c1 = Some (Inr s)"
      and c': "c' = (metrics s)\<lparr>false_negative := false_negative (metrics s)
                       + int (card ({0..<?M} - used_rows s)),
                    false_positive := false_positive (metrics s)
                       + int (card ({0..<?N} - used_cols s))\<rparr>"
      using ret by (auto simp: process_group_def Let_def split: option.splits sum.splits)
    have ml: "match_loop t (init_state ?m ?c1) = Some (Inr s)" using s by (simp add: match_group_def)
    from match_loop_returns[OF ml rect] obtain n where
      pos: "0 < ?M" "0 < ?N" and inv: "loop_inv ?M ?N ?m (true_positive ?c1) s"
      and n: "s = loop_iter n t (init_state ?m ?c1)" by blast
    have met: "total_true (metrics s) = total_true ?c1" "total_pred (metrics s) = total_pred ?c1"
      "false_negative (metrics s) = false_negative ?c1" "false_positive (metrics s) = false_positive ?c1"
      using metrics_loop_iter[of n t "init_state ?m ?c1"] n by (simp_all add: init_state_def)
    have sub: "used_rows s \<subseteq> {..<?M}" "used_cols s \<subseteq> {..<?N}" using inv by (simp_all add: loop_inv_def)
    have "int (card (used_rows s)) + (false_negative c' - false_negative c) = int ?M"
      using c' met card_unused[OF sub(1)] by simp
    moreover have "int (card (used_cols s)) + (false_positive c' - false_positive c) = int ?N"
      using c' met card_unused[OF sub(2)] by simp
    moreover have "total_true c' = total_true c + int ?M" "total_pred c' = total_pred c + int ?N"
      using c' met by simp_all
    ultimately show ?thesis using s pos by auto
  qed
  show "total_true c' = total_true c + int ?M" using main by blast
  show "total_pred c' = total_pred c + int ?N" using main by blast
  show "\<exists>matched_rows matched_cols.
          (if ?N = 0 then matched_rows = {} \<and> matched_cols = {}
           else \<exists>s. match_group t true_boxes pred_boxes ?c1 = Some (Inr s) \<and>
                    matched_rows = used_rows s \<and> matched_cols = used_cols s) \<and>
          int (card matched_rows) + (false_negative c' - false_negative c) = int ?M \<and>
          int (card matched_cols) + (false_positive c' - false_positive c) = int ?N"
    using main by blast
qed



lemma group_has_ground_truth:
  assumes "(img, l) \<in> set (group_keys ground_truth)"
  shows "0 < length (map bbox (select_rows ground_truth img l))"
proof -
  from assms obtain d where "d \<in> set ground_truth" "image_name d = img" "label d = l"
    by (auto simp: group_keys_def)
  then have "d \<in> set (select_rows ground_truth img l)" by (simp add: select_rows_def)
  then show ?thesis by (auto simp: length_greater_0_conv simp del: length_map)
qed

lemma process_group_diverges:
  assumes "t = NaN \<or> t = NegInf" "0 < length true_boxes" "0 < length pred_boxes"
  shows "process_group t true_boxes pred_boxes c = None"
proof -
  let ?c1 = "c\<lparr>total_true := total_true c + int (length true_boxes),
                 total_pred := total_pred c + int (length pred_boxes)\<rparr>"
  let ?s = "init_state (compute_iou true_boxes pred_boxes) ?c1"
  have r: "rect (length true_boxes) (length pred_boxes) (pairwise_iou ?s)"
    by (simp add: init_state_def rect_compute_iou)
  have "match_loop t ?s = None"
  proof (cases "match_loop t ?s")
    case None then show ?thesis .
  next
    case (Some y)
    then show ?thesis
      using match_loop_never_returns[OF Some, of "length true_boxes" "length pred_boxes"] r assms
      by blast
  qed
  then show ?thesis using assms(3) by (simp add: process_group_def match_group_def)
qed

text \<open>
  C5, as amended.  For every group of the ground truth, if the group has no predictions or
  the threshold is neither \<open>NaN\<close> nor \<open>-inf\<close>, the body of the \<open>for\<close> loop completes:
  \<open>total_true\<close> has grown by the number of ground-truth boxes and \<open>total_pred\<close> by the
  number of predictions; the matched rows plus the false negatives added make up the
  former, the matched columns plus the false positives added the latter.  Without
  predictions nothing is matched; otherwise the matched rows and columns are the sets the
  loop returns.
\<close>

theorem group_counts_balance:
  assumes "(img, l) \<in> set (group_keys ground_truth)"
    and "true_boxes = map bbox (select_rows ground_truth img l)"
    and "pred_boxes = map bbox (select_rows detection_results img l)"
    and "length pred_boxes = 0 \<or> (t \<noteq> NaN \<and> t \<noteq> NegInf)"
  shows "\<exists>c'. process_group t true_boxes pred_boxes c = Some (Inr c') \<and>
      total_true c' = total_true c + int (length true_boxes) \<and>
      total_pred c' = total_pred c + int (length pred_boxes) \<and>
      (\<exists>matched_rows matched_cols.
          (if length pred_boxes = 0 then matched_rows = {} \<and> matched_cols = {}
           else \<exists>s. match_group t true_boxes pred_boxes
                       (c\<lparr>total_true := total_true c + int (length true_boxes),
                          total_pred := total_pred c + int (length pred_boxes)\<rparr>) = Some (Inr s) \<and>
                    matched_rows = used_rows s \<and> matched_cols = used_cols s) \<and>
          int (card matched_rows) + (false_negative c' - false_negative c) = int (length true_boxes) \<and>
          int (card matched_cols) + (false_positive c' - false_positive c) = int (length pred_boxes))"
proof -
  have M: "0 < length true_boxes"
    using group_has_ground_truth[OF assms(1)] assms(2) by simp
  have "\<exists>c'. process_group t true_boxes pred_boxes c = Some (Inr c')"
  proof (cases "length pred_boxes = 0")
    case True
    then show ?thesis using M by (simp add: process_group_def)
  next
    case False
    then have "t \<noteq> NaN \<and> t \<noteq> NegInf \<and> 0 < length true_boxes" using assms(4) M by simp
    then show ?thesis using process_group_counts[of t true_boxes pred_boxes c] by blast
  qed
  then obtain c' where c': "process_group t true_boxes pred_boxes c = Some (Inr c')" by blast
  show ?thesis
    using c' process_group_counts[of t true_boxes pred_boxes c] by blast
qed

theorem group_counts_balance_witness:
  "(''a'', ''cat'') \<in> set (group_keys
      [\<lparr>image_name = ''a'', bbox = \<lparr>box_left = 0, box_top = 0, box_right = 10, box_bottom = 10\<rparr>,
        label = ''cat'', score = 1\<rparr>,
       \<lparr>image_name = ''a'', bbox = \<lparr>box_left = 20, box_top = 20, box_right = 30, box_bottom = 30\<rparr>,
        label = ''cat'', score = 1\<rparr>]) \<and>
   Fin (1/2) \<noteq> NaN \<and> Fin (1/2) \<noteq> NegInf \<and>
   (\<exists>c'. process_group (Fin (1/2))
            [\<lparr>box_left = 0, box_top = 0, box_right = 10, box_bottom = 10\<rparr>,
             \<lparr>box_left = 20, box_top = 20, box_right = 30, box_bottom = 30\<rparr>]
            [\<lparr>box_left = 0, box_top = 0, box_right = 10, box_bottom = 9\<rparr>] zero_counters = Some (Inr c') \<and>
          total_true c' = 2 \<and> total_pred c' = 1 \<and> true_positive c' = 1 \<and>
          false_negative c' = 1 \<and> false_positive c' = 0)"
proof -
  let ?gt = "[\<lparr>image_name = ''a'', bbox = \<lparr>box_left = 0, box_top = 0, box_right = 10, box_bottom = 10\<rparr>,
        label = ''cat'', score = 1\<rparr>,
       \<lparr>image_name = ''a'', bbox = \<lparr>box_left = 20, box_top = 20, box_right = 30, box_bottom = 30\<rparr>,
        label = ''cat'', score = 1\<rparr>]"
  let ?dr = "[\<lparr>image_name = ''a'', bbox = \<lparr>box_left = 0, box_top = 0, box_right = 10, box_bottom = 9\<rparr>,
        label = ''cat'', score = 9/10\<rparr>]"
  let ?tb = "[\<lparr>box_left = 0, box_top = 0, box_right = 10, box_bottom = 10\<rparr>,
             \<lparr>box_left = 20, box_top = 20, box_right = 30, box_bottom = 30\<rparr>]"
  let ?pb = "[\<lparr>box_left = 0, box_top = 0, box_right = 10, box_bottom = 9\<rparr>]"
  have k: "(''a'', ''cat'') \<in> set (group_keys ?gt)" by (simp add: group_keys_def)
  have tb: "?tb = map bbox (select_rows ?gt ''a'' ''cat'')" by (simp add: select_rows_def)
  have pb: "?pb = map bbox (select_rows ?dr ''a'' ''cat'')" by (simp add: select_rows_def)
  have e: "process_group (Fin (1/2)) ?tb ?pb zero_counters =
      Some (Inr \<lparr>total_true = 2, total_pred = 1, true_positive = 1, false_negative = 1, false_positive = 0\<rparr>)"
    by code_simp
  from group_counts_balance[OF k tb pb, of "Fin (1/2)" zero_counters]
  obtain c' where c': "process_group (Fin (1/2)) ?tb ?pb zero_counters = Some (Inr c')"
    "total_true c' = total_true zero_counters + int (length ?tb)" by auto
  have "c' = \<lparr>total_true = 2, total_pred = 1, true_positive = 1, false_negative = 1, false_positive = 0\<rparr>"
    using c'(1) e by simp
  then show ?thesis using k c'(1) by simp
qed

text \<open>
  C5, as stated, fails: with threshold \<open>-inf\<close> the body never completes for a group with
  two ground-truth boxes and one prediction.  \<open>total_true\<close> has grown by 2 on line 64, the
  loop has matched one row, and lines 96 and 97 are never reached, so no false negative
  is ever added.
\<close>

theorem group_never_balanced:
  "process_group NegInf
      [\<lparr>box_left = 0, box_top = 0, box_right = 10, box_bottom = 10\<rparr>,
       \<lparr>box_left = 20, box_top = 20, box_right = 30, box_bottom = 30\<rparr>]
      [\<lparr>box_left = 0, box_top = 0, box_right = 10, box_bottom = 9\<rparr>] zero_counters = None \<and>
   used_rows (loop_iter 3 NegInf (init_state
      (compute_iou [\<lparr>box_left = 0, box_top = 0, box_right = 10, box_bottom = 10\<rparr>,
                    \<lparr>box_left = 20, box_top = 20, box_right = 30, box_bottom = 30\<rparr>]
                   [\<lparr>box_left = 0, box_top = 0, box_right = 10, box_bottom = 9\<rparr>])
      \<lparr>total_true = 2, total_pred = 1, true_positive = 0, false_negative = 0, false_positive = 0\<rparr>))
     = {0} \<and>
   false_negative (metrics (loop_iter 3 NegInf (init_state
      (compute_iou [\<lparr>box_left = 0, box_top = 0, box_right = 10, box_bottom = 10\<rparr>,
                    \<lparr>box_left = 20, box_top = 20, box_right = 30, box_bottom = 30\<rparr>]
                   [\<lparr>box_left = 0, box_top = 0, box_right = 10, box_bottom = 9\<rparr>])
      \<lparr>total_true = 2, total_pred = 1, true_positive = 0, false_negative = 0, false_positive = 0\<rparr>)))
     = 0"
proof -
  let ?tb = "[\<lparr>box_left = 0, box_top = 0, box_right = 10, box_bottom = 10\<rparr>,
             \<lparr>box_left = 20, box_top = 20, box_right = 30, box_bottom = 30\<rparr>]"
  let ?pb = "[\<lparr>box_left = 0, box_top = 0, box_right = 10, box_bottom = 9\<rparr>]"
  let ?c1 = "\<lparr>total_true = 2, total_pred = 1, true_positive = 0, false_negative = 0, false_positive = 0\<rparr>"
  have 1: "process_group NegInf ?tb ?pb zero_counters = None"
    by (rule process_group_diverges) simp_all
  have 2: "used_rows (loop_iter 3 NegInf (init_state (compute_iou ?tb ?pb) ?c1)) = {0}"
    by code_simp
  have 3: "false_negative (metrics (loop_iter 3 NegInf (init_state (compute_iou ?tb ?pb) ?c1))) = 0"
    by code_simp
  show ?thesis using 1 2 3 by simp
qed

section \<open>Groups without predictions, groups without ground truth\<close>

text \<open>
  With ground truth and no prediction, lines 67 to 69 count every ground-truth box as a
  false negative and skip the matrix.  The mirror case has no branch: the body would raise
  in \<open>np.argmax\<close>, and it is never reached, because line 61 iterates over the groups of
  the ground truth only.  Predictions whose \<open>(image_name, label)\<close> has no ground truth do
  not influence the counters at all.
\<close>

lemma process_group_no_predictions:
  "0 < length true_boxes \<Longrightarrow>
     process_group t true_boxes [] c =
       Some (Inr (c\<lparr>total_true := total_true c + int (length true_boxes),
                   total_pred := total_pred c,
                   false_negative := false_negative c + int (length true_boxes)\<rparr>))"
  by (simp add: process_group_def)

lemma process_group_no_ground_truth:
  "process_group t [] pred_boxes c = Some (Inl ValueError)"
proof -
  have "select_max (compute_iou [] pred_boxes) = Inl ValueError"
    by (rule select_max_empty[OF rect_compute_iou]) simp
  then have "loop_body t (init_state (compute_iou [] pred_boxes) c') = Inl ValueError" for c'
    by (simp add: loop_body_def init_state_def)
  then have "match_group t [] pred_boxes c' = Some (Inl ValueError)" for c'
    unfolding match_group_def by (subst match_loop.simps) simp
  then show ?thesis by (simp add: process_group_def)
qed

lemma set_group_keys: "set (group_keys ground_truth) = (\<lambda>d. (image_name d, label d)) ` set ground_truth"
  by (simp add: group_keys_def)

lemma run_groups_ignores:
  assumes "\<forall>k\<in>set ks. k \<in> K"
  shows "run_groups t gt (filter (\<lambda>d. (image_name d, label d) \<in> K) dr) ks a = run_groups t gt dr ks a"
  using assms
proof (induction ks arbitrary: a)
  case Nil show ?case by simp
next
  case (Cons k ks)
  obtain img l where k: "k = (img, l)" by (cases k)
  have "(img, l) \<in> K" using Cons.prems k by simp
  then have sel: "select_rows (filter (\<lambda>d. (image_name d, label d) \<in> K) dr) img l = select_rows dr img l"
    unfolding select_rows_def filter_filter by (intro filter_cong) auto
  have IH: "\<And>a. run_groups t gt (filter (\<lambda>d. (image_name d, label d) \<in> K) dr) ks a = run_groups t gt dr ks a"
    using Cons by simp
  show ?case unfolding k by (simp add: sel IH Let_def split: option.splits sum.splits)
qed

lemma accumulate_ignores_other_groups:
  "accumulate t ground_truth
       (filter (\<lambda>d. (image_name d, label d) \<in> (\<lambda>g. (image_name g, label g)) ` set ground_truth) detection_results)
     = accumulate t ground_truth detection_results"
  unfolding accumulate_def by (rule run_groups_ignores) (simp add: set_group_keys)

text \<open>
  C1 fails on the code.  The ground truth has one \<open>cat\<close> box in \<open>img1\<close>, the detections one
  \<open>cat\<close> box in \<open>img2\<close>: the group \<open>(img2, cat)\<close> has a prediction and no ground truth, and
  its prediction is counted neither in \<open>false_positive\<close> nor in \<open>total_pred\<close>.
\<close>

theorem predictions_without_ground_truth_dropped:
  "accumulate (Fin (1/2))
     [\<lparr>image_name = ''img1'', bbox = \<lparr>box_left = 0, box_top = 0, box_right = 10, box_bottom = 10\<rparr>,
       label = ''cat'', score = 1\<rparr>]
     [\<lparr>image_name = ''img2'', bbox = \<lparr>box_left = 0, box_top = 0, box_right = 10, box_bottom = 10\<rparr>,
       label = ''cat'', score = 9/10\<rparr>]
   = Some (Inr [(''cat'', \<lparr>total_true = 1, total_pred = 0, true_positive = 0,
                           false_negative = 1, false_positive = 0\<rparr>)])"
  by code_simp

section \<open>The final ratios\<close>

lemma label_scores_error: "label_scores m = Inl e \<Longrightarrow> e = ZeroDivisionError"
  by (auto simp: label_scores_def py_div_def split: sum.splits if_splits)

lemma report_error: "report a = Inl e \<Longrightarrow> e = ZeroDivisionError"
proof (induction a)
  case Nil then show ?case by simp
next
  case (Cons p a)
  obtain l m where p: "p = (l, m)" by (cases p)
  show ?case using Cons p by (auto split: sum.splits dest: label_scores_error)
qed

lemma report_fails:
  "(l, m) \<in> set a \<Longrightarrow> label_scores m = Inl ZeroDivisionError \<Longrightarrow> report a = Inl ZeroDivisionError"
proof (induction a)
  case Nil then show ?case by simp
next
  case (Cons p a)
  obtain l' m' where p: "p = (l', m')" by (cases p)
  show ?case
  proof (cases "label_scores m'")
    case (Inl e)
    then show ?thesis using p label_scores_error by auto
  next
    case (Inr sc)
    then have "(l, m) \<in> set a" using Cons.prems p by auto
    then have "report a = Inl ZeroDivisionError" using Cons by simp
    then show ?thesis using p Inr by simp
  qed
qed

text \<open>
  C2.  If the counters of some label make one of the three denominators zero, the
  computation of that label's scores raises \<open>ZeroDivisionError\<close>, and so do the report
  and the whole run.  The witness is Scenario B: no true positive, one false negative, one
  false positive.
\<close>

theorem unguarded_divisions_raise:
  assumes "accumulate t ground_truth detection_results = Some (Inr a)" and "(l, m) \<in> set a"
    and "true_positive m + false_positive m = 0 \<or> true_positive m + false_negative m = 0 \<or>
         (of_int (true_positive m) / of_int (true_positive m + false_positive m) :: rat)
           + of_int (true_positive m) / of_int (true_positive m + false_negative m) = 0"
  shows "label_scores m = Inl ZeroDivisionError \<and> report a = Inl ZeroDivisionError \<and>
         main t ground_truth detection_results = Some (Inl ZeroDivisionError)"
proof -
  have ls: "label_scores m = Inl ZeroDivisionError"
    using assms(3) by (auto simp: label_scores_def py_div_def)
  have "report a = Inl ZeroDivisionError" by (rule report_fails[OF assms(2) ls])
  then show ?thesis using ls assms(1) by (simp add: main_def)
qed

theorem unguarded_divisions_raise_witness:
  "accumulate (Fin (1/2))
     [\<lparr>image_name = ''img'', bbox = \<lparr>box_left = 0, box_top = 0, box_right = 10, box_bottom = 10\<rparr>,
       label = ''dog'', score = 1\<rparr>]
     [\<lparr>image_name = ''img'', bbox = \<lparr>box_left = 50, box_top = 50, box_right = 60, box_bottom = 60\<rparr>,
       label = ''dog'', score = 8/10\<rparr>]
     = Some (Inr [(''dog'', \<lparr>total_true = 1, total_pred = 1, true_positive = 0,
                           false_negative = 1, false_positive = 1\<rparr>)]) \<and>
   main (Fin (1/2))
     [\<lparr>image_name = ''img'', bbox = \<lparr>box_left = 0, box_top = 0, box_right = 10, box_bottom = 10\<rparr>,
       label = ''dog'', score = 1\<rparr>]
     [\<lparr>image_name = ''img'', bbox = \<lparr>box_left = 50, box_top = 50, box_right = 60, box_bottom = 60\<rparr>,
       label = ''dog'', score = 8/10\<rparr>]
     = Some (Inl ZeroDivisionError)"
proof -
  let ?gt = "[\<lparr>image_name = ''img'', bbox = \<lparr>box_left = 0, box_top = 0, box_right = 10, box_bottom = 10\<rparr>,
       label = ''dog'', score = 1\<rparr>]"
  let ?dr = "[\<lparr>image_name = ''img'', bbox = \<lparr>box_left = 50, box_top = 50, box_right = 60, box_bottom = 60\<rparr>,
       label = ''dog'', score = 8/10\<rparr>]"
  let ?m = "\<lparr>total_true = 1, total_pred = 1, true_positive = 0, false_negative = 1, false_positive = 1\<rparr>"
  have a: "accumulate (Fin (1/2)) ?gt ?dr = Some (Inr [(''dog'', ?m)])" by code_simp
  have "main (Fin (1/2)) ?gt ?dr = Some (Inl ZeroDivisionError)"
    using unguarded_divisions_raise[OF a, of "''dog''" ?m] by simp
  then show ?thesis using a by simp
qed

section \<open>64-bit arithmetic without overflow\<close>

text \<open>
  As long as the mathematical result fits into 64 bits, the wrapped operation returns it;
  \<open>np.maximum\<close> and \<open>np.minimum\<close> are the signed maximum and minimum.
\<close>

lemma sint_sub_fits: "fits64 (sint a - sint b) \<Longrightarrow> sint (a - b :: i64) = sint a - sint b"
  by (simp add: sint_word_ariths fits64_def signed_take_bit_int_eq_self)

lemma sint_add_fits: "fits64 (sint a + sint b) \<Longrightarrow> sint (a + b :: i64) = sint a + sint b"
  by (simp add: sint_word_ariths fits64_def signed_take_bit_int_eq_self)

lemma sint_mult_fits: "fits64 (sint a * sint b) \<Longrightarrow> sint (a * b :: i64) = sint a * sint b"
  by (simp add: sint_word_ariths fits64_def signed_take_bit_int_eq_self)

lemma sint_smax: "sint (smax a b) = max (sint a) (sint b)"
  by (simp add: smax_def max_def)

lemma sint_smin: "sint (smin a b) = min (sint a) (sint b)"
  by (simp add: smin_def min_def)


section \<open>\<open>compute_iou\<close> against the specification's formula\<close>

lemma sint_inject: "sint (a :: i64) = sint b \<Longrightarrow> a = b"
  by (rule signed_word_eqI)

lemma smax_commute: "smax a b = smax b a"
  using sint_inject[of a b] by (auto simp: smax_def)

lemma smin_commute: "smin a b = smin b a"
  using sint_inject[of a b] by (auto simp: smin_def)

lemma intersection_area_commute: "intersection_area b1 b2 = intersection_area b2 b1"
  unfolding intersection_area_def
  by (simp add: smax_commute[of "box_left b1"] smax_commute[of "box_top b1"]
      smin_commute[of "box_right b1"] smin_commute[of "box_bottom b1"])

lemma union_area_commute: "union_area b1 b2 = union_area b2 b1"
  unfolding union_area_def
  by (simp add: intersection_area_commute[of b1] add.commute)

lemma iou_commute: "iou b1 b2 = iou b2 b1"
  unfolding iou_def by (simp add: intersection_area_commute[of b1] union_area_commute[of b1])

lemma intersection_area_exact:
  assumes "fits64 (overlap_width b1 b2)" "fits64 (overlap_height b1 b2)"
  shows "intersection_area b1 b2 =
           of_int (max 0 (overlap_width b1 b2)) * of_int (max 0 (overlap_height b1 b2))"
proof -
  have w: "sint (smin (box_right b1) (box_right b2) - smax (box_left b1) (box_left b2))
             = overlap_width b1 b2"
    using assms(1) sint_sub_fits[of "smin (box_right b1) (box_right b2)" "smax (box_left b1) (box_left b2)"]
    by (simp add: overlap_width_def sint_smax sint_smin)
  have h: "sint (smin (box_bottom b1) (box_bottom b2) - smax (box_top b1) (box_top b2))
             = overlap_height b1 b2"
    using assms(2) sint_sub_fits[of "smin (box_bottom b1) (box_bottom b2)" "smax (box_top b1) (box_top b2)"]
    by (simp add: overlap_height_def sint_smax sint_smin)
  show ?thesis
    unfolding intersection_area_def Let_def fst_conv snd_conv to_float_def w h
    by (simp add: max_def)
qed

lemma boxes_area_exact:
  assumes "fits64 (width b)" "fits64 (height b)" "fits64 (area b)"
  shows "sint (boxes_area b) = area b"
proof -
  have w: "sint (box_right b - box_left b) = width b"
    using assms(1) sint_sub_fits[of "box_right b" "box_left b"] by (simp add: width_def)
  have h: "sint (box_bottom b - box_top b) = height b"
    using assms(2) sint_sub_fits[of "box_bottom b" "box_top b"] by (simp add: height_def)
  show ?thesis
    unfolding boxes_area_def
    using assms(3) sint_mult_fits[of "box_right b - box_left b" "box_bottom b - box_top b"]
    by (simp add: w h area_def)
qed

lemma union_area_exact:
  assumes "no_overflow b1 b2"
  shows "union_area b1 b2 =
     max (of_int (area b1) + of_int (area b2)
            - of_int (max 0 (overlap_width b1 b2)) * of_int (max 0 (overlap_height b1 b2))) eps"
proof -
  have a1: "sint (boxes_area b1) = area b1" and a2: "sint (boxes_area b2) = area b2"
    using assms by (simp_all add: no_overflow_def boxes_area_exact)
  have "fits64 (sint (boxes_area b1) + sint (boxes_area b2))"
    using assms a1 a2 by (simp add: no_overflow_def)
  then have "sint (boxes_area b1 + boxes_area b2) = area b1 + area b2"
    using sint_add_fits[of "boxes_area b1" "boxes_area b2"] a1 a2 by simp
  moreover have "intersection_area b1 b2 =
           of_int (max 0 (overlap_width b1 b2)) * of_int (max 0 (overlap_height b1 b2))"
    using assms by (simp add: no_overflow_def intersection_area_exact)
  ultimately show ?thesis by (simp add: union_area_def to_float_def)
qed

lemma iou_exact:
  assumes "no_overflow b1 b2"
  shows "iou b1 b2 = iou_spec b1 b2"
proof -
  have "intersection_area b1 b2 =
           of_int (max 0 (overlap_width b1 b2)) * of_int (max 0 (overlap_height b1 b2))"
    using assms by (simp add: no_overflow_def intersection_area_exact)
  then have "intersection_area b1 b2 / union_area b1 b2 = overlap_ratio b1 b2"
    unfolding overlap_ratio_def Let_def union_area_exact[OF assms] by simp
  then show ?thesis unfolding iou_unfold iou_spec_def by simp
qed







section \<open>Degenerate boxes\<close>

lemma degenerate_no_overlap:
  assumes "degenerate b1"
  shows "max 0 (overlap_width b1 b2) = 0 \<or> max 0 (overlap_height b1 b2) = 0"
proof -
  have "width b1 = 0 \<or> height b1 = 0" using assms by (simp add: degenerate_def area_def)
  then show ?thesis
    by (auto simp: width_def height_def overlap_width_def overlap_height_def)
qed

text \<open>
  C9, as amended.  For every pair of boxes the denominator of line 31 is at least \<open>eps\<close>,
  which is positive, so the division never takes its zero-denominator case.  For two
  well-formed boxes of zero area for which the integer arithmetic does not overflow, the
  entry is 0.
\<close>

theorem degenerate_boxes_zero:
  "eps \<le> union_area b1 b2 \<and> 0 < eps \<and>
   np_divide (intersection_area b1 b2) (union_area b1 b2)
     = Fin (intersection_area b1 b2 / union_area b1 b2) \<and>
   (well_formed b1 \<and> well_formed b2 \<and> degenerate b1 \<and> degenerate b2 \<and> no_overflow b1 b2
      \<longrightarrow> iou b1 b2 = Fin 0)"
proof (intro conjI impI)
  show "eps \<le> union_area b1 b2" by (rule union_area_ge_eps)
  show "0 < eps" by (rule eps_pos)
  show "np_divide (intersection_area b1 b2) (union_area b1 b2)
     = Fin (intersection_area b1 b2 / union_area b1 b2)"
    using union_area_pos[of b1 b2] by (simp add: np_divide_def)
next
  assume a: "well_formed b1 \<and> well_formed b2 \<and> degenerate b1 \<and> degenerate b2 \<and> no_overflow b1 b2"
  then have "max 0 (overlap_width b1 b2) = 0 \<or> max 0 (overlap_height b1 b2) = 0"
    using degenerate_no_overlap by blast
  then have "overlap_ratio b1 b2 = 0" unfolding overlap_ratio_def Let_def by auto
  then have "iou_spec b1 b2 = Fin 0" unfolding iou_spec_def by (simp only: clip_round_0)
  then show "iou b1 b2 = Fin 0" using a iou_exact by simp
qed

theorem degenerate_boxes_zero_witness:
  "well_formed \<lparr>box_left = 5, box_top = 0, box_right = 5, box_bottom = 10\<rparr> \<and>
   well_formed \<lparr>box_left = 0, box_top = 3, box_right = 10, box_bottom = 3\<rparr> \<and>
   degenerate \<lparr>box_left = 5, box_top = 0, box_right = 5, box_bottom = 10\<rparr> \<and>
   degenerate \<lparr>box_left = 0, box_top = 3, box_right = 10, box_bottom = 3\<rparr> \<and>
   no_overflow \<lparr>box_left = 5, box_top = 0, box_right = 5, box_bottom = 10\<rparr>
               \<lparr>box_left = 0, box_top = 3, box_right = 10, box_bottom = 3\<rparr> \<and>
   iou \<lparr>box_left = 5, box_top = 0, box_right = 5, box_bottom = 10\<rparr>
       \<lparr>box_left = 0, box_top = 3, box_right = 10, box_bottom = 3\<rparr> = Fin 0"
proof -
  let ?a = "\<lparr>box_left = 5, box_top = 0, box_right = 5, box_bottom = 10\<rparr>"
  let ?b = "\<lparr>box_left = 0, box_top = 3, box_right = 10, box_bottom = 3\<rparr>"
  have h: "well_formed ?a" "well_formed ?b" "degenerate ?a" "degenerate ?b" "no_overflow ?a ?b"
    by code_simp+
  then have "iou ?a ?b = Fin 0" using degenerate_boxes_zero[of ?a ?b] by blast
  then show ?thesis using h by simp
qed

text \<open>
  C9, as stated, fails where the subtraction \<open>rd - lu\<close> of line 26 wraps around: two
  vertical segments at opposite ends of the 64-bit range get an intersection width of 1
  and an entry of 1.
\<close>

theorem degenerate_boxes_overflow:
  "well_formed \<lparr>box_left = - 9223372036854775808, box_top = 0,
                box_right = - 9223372036854775808, box_bottom = 10\<rparr> \<and>
   well_formed \<lparr>box_left = 9223372036854775807, box_top = 0,
                box_right = 9223372036854775807, box_bottom = 10\<rparr> \<and>
   degenerate \<lparr>box_left = - 9223372036854775808, box_top = 0,
               box_right = - 9223372036854775808, box_bottom = 10\<rparr> \<and>
   degenerate \<lparr>box_left = 9223372036854775807, box_top = 0,
               box_right = 9223372036854775807, box_bottom = 10\<rparr> \<and>
   iou \<lparr>box_left = - 9223372036854775808, box_top = 0,
        box_right = - 9223372036854775808, box_bottom = 10\<rparr>
       \<lparr>box_left = 9223372036854775807, box_top = 0,
        box_right = 9223372036854775807, box_bottom = 10\<rparr> = Fin 1"
  by code_simp

section \<open>Symmetry and the overlap of a box with itself\<close>

lemma overlap_ratio_self:
  assumes "well_formed a" "\<not> degenerate a"
  shows "overlap_ratio a a = 1"
proof -
  have w: "0 \<le> width a" and h: "0 \<le> height a"
    using assms(1) by (simp_all add: well_formed_def width_def height_def)
  have ne: "width a * height a \<noteq> 0" using assms(2) by (simp add: degenerate_def area_def)
  then have "0 < width a" "0 < height a" using w h by (auto simp: less_le)
  then have pos: "0 < area a" by (simp add: area_def)
  have ow: "overlap_width a a = width a" and oh: "overlap_height a a = height a"
    by (simp_all add: overlap_width_def overlap_height_def width_def height_def)
  have inter: "(of_int (max 0 (overlap_width a a)) * of_int (max 0 (overlap_height a a)) :: rat)
      = of_int (area a)"
    using w h by (simp add: ow oh area_def)
  have "1 \<le> area a" using pos by simp
  then have "(1 :: rat) \<le> of_int (area a)" by (metis of_int_1_le_iff)
  moreover have "eps \<le> 1" by (simp add: eps_def)
  ultimately have "max (of_int (area a)) eps = (of_int (area a) :: rat)" by simp
  moreover have "(of_int (area a) :: rat) \<noteq> 0" using pos by simp
  ultimately show ?thesis unfolding overlap_ratio_def Let_def inter by simp
qed

lemma iou_spec_self:
  assumes "well_formed a" "\<not> degenerate a"
  shows "iou_spec a a = Fin 1"
  unfolding iou_spec_def overlap_ratio_self[OF assms] by (rule clip_round_1)

text \<open>
  C10, as amended.  The overlap ratio is symmetric for all boxes, and so is the matrix:
  entry \<open>(i, j)\<close> of \<open>compute_iou A B\<close> is entry \<open>(j, i)\<close> of \<open>compute_iou B A\<close>.  A well-formed
  box of positive area has overlap ratio exactly 1 with itself, provided the integer
  arithmetic does not overflow for it.
\<close>

theorem iou_symmetric_and_reflexive:
  "iou a b = iou b a \<and>
   (i < length boxes1 \<and> j < length boxes2 \<longrightarrow>
      compute_iou boxes1 boxes2 ! i ! j = compute_iou boxes2 boxes1 ! j ! i) \<and>
   (well_formed a \<and> \<not> degenerate a \<and> no_overflow a a \<longrightarrow> iou a a = Fin 1)"
proof (intro conjI impI)
  show "iou a b = iou b a" by (rule iou_commute)
next
  assume "i < length boxes1 \<and> j < length boxes2"
  then show "compute_iou boxes1 boxes2 ! i ! j = compute_iou boxes2 boxes1 ! j ! i"
    by (simp add: nth_compute_iou iou_commute[of "boxes1 ! i"])
next
  assume "well_formed a \<and> \<not> degenerate a \<and> no_overflow a a"
  then show "iou a a = Fin 1" using iou_exact[of a a] iou_spec_self[of a] by simp
qed

theorem iou_symmetric_and_reflexive_witness:
  "(0::nat) < length [\<lparr>box_left = 10, box_top = 10, box_right = 50, box_bottom = 50\<rparr>] \<and>
   (0::nat) < length [\<lparr>box_left = 12, box_top = 12, box_right = 48, box_bottom = 48\<rparr>] \<and>
   well_formed \<lparr>box_left = 10, box_top = 10, box_right = 50, box_bottom = 50\<rparr> \<and>
   \<not> degenerate \<lparr>box_left = 10, box_top = 10, box_right = 50, box_bottom = 50\<rparr> \<and>
   no_overflow \<lparr>box_left = 10, box_top = 10, box_right = 50, box_bottom = 50\<rparr>
               \<lparr>box_left = 10, box_top = 10, box_right = 50, box_bottom = 50\<rparr> \<and>
   iou \<lparr>box_left = 10, box_top = 10, box_right = 50, box_bottom = 50\<rparr>
       \<lparr>box_left = 10, box_top = 10, box_right = 50, box_bottom = 50\<rparr> = Fin 1 \<and>
   compute_iou [\<lparr>box_left = 10, box_top = 10, box_right = 50, box_bottom = 50\<rparr>]
               [\<lparr>box_left = 12, box_top = 12, box_right = 48, box_bottom = 48\<rparr>] ! 0 ! 0
     = compute_iou [\<lparr>box_left = 12, box_top = 12, box_right = 48, box_bottom = 48\<rparr>]
                   [\<lparr>box_left = 10, box_top = 10, box_right = 50, box_bottom = 50\<rparr>] ! 0 ! 0"
proof -
  let ?a = "\<lparr>box_left = 10, box_top = 10, box_right = 50, box_bottom = 50\<rparr>"
  let ?b = "\<lparr>box_left = 12, box_top = 12, box_right = 48, box_bottom = 48\<rparr>"
  have h: "well_formed ?a" "\<not> degenerate ?a" "no_overflow ?a ?a" by code_simp+
  have 1: "iou ?a ?a = Fin 1"
    using iou_symmetric_and_reflexive[of ?a ?a 0 "[?a]" 0 "[?b]"] h by blast
  have 2: "compute_iou [?a] [?b] ! 0 ! 0 = compute_iou [?b] [?a] ! 0 ! 0"
    using iou_symmetric_and_reflexive[of ?a ?a 0 "[?a]" 0 "[?b]"] by simp
  show ?thesis using h 1 2 by simp
qed

text \<open>
  C10, as stated, fails for a box whose width does not fit into 64 bits: the width
  \<open>2 ^ 63\<close> wraps to a negative number, the intersection is clamped to 0, and the box has
  overlap ratio 0 with itself.
\<close>

theorem self_iou_overflow:
  "well_formed \<lparr>box_left = - 4611686018427387904, box_top = 0,
                box_right = 4611686018427387904, box_bottom = 10\<rparr> \<and>
   \<not> degenerate \<lparr>box_left = - 4611686018427387904, box_top = 0,
                 box_right = 4611686018427387904, box_bottom = 10\<rparr> \<and>
   iou \<lparr>box_left = - 4611686018427387904, box_top = 0,
        box_right = 4611686018427387904, box_bottom = 10\<rparr>
       \<lparr>box_left = - 4611686018427387904, box_top = 0,
        box_right = 4611686018427387904, box_bottom = 10\<rparr> = Fin 0"
  by code_simp

end
